theory Spec2Isabelle
  imports Complex_Main "HOL-Library.Word"
begin

section \<open>Real-time object tracking: the detection-to-track pipeline\<close>

text \<open>
  The repository's driver script \<^verbatim>\<open>Streamlit_App.py\<close> crops a region of interest from
  every frame, segments the foreground, extracts detections from contours and hands them
  to \<^verbatim>\<open>tracker.EuclideanDistTracker\<close>.  The tracker module is imported by the script but
  is not among the sources; it is modelled below from the specification (section 4.4).
\<close>

subsection \<open>Data model\<close>

text \<open>
  A detection is the list \<^verbatim>\<open>[x, y, w, h]\<close> the script appends in its contour loop; a
  tracked box is the list \<^verbatim>\<open>[x, y, w, h, id]\<close> the script unpacks after
  \<^verbatim>\<open>tracker.update\<close>.  Python integers are unbounded.
\<close>

type_synonym detection = "int \<times> int \<times> int \<times> int"
type_synonym tracked_box = "int \<times> int \<times> int \<times> int \<times> int"

definition emit :: "detection \<Rightarrow> int \<Rightarrow> tracked_box" where
  "emit d i = (case d of (x, y, w, h) \<Rightarrow> (x, y, w, h, i))"

definition box_of :: "tracked_box \<Rightarrow> detection" where
  "box_of b = (case b of (x, y, w, h, i) \<Rightarrow> (x, y, w, h))"

definition box_id :: "tracked_box \<Rightarrow> int" where
  "box_id b = (case b of (x, y, w, h, i) \<Rightarrow> i)"

text \<open>
  Modelled from the spec: the Track of section 3,
  \<^verbatim>\<open>{id, centroid: (x, y) real-valued, lastBoundingBox: {x,y,w,h}}\<close>.
\<close>

record track =
  track_id :: int
  centroid :: "real \<times> real"
  lastBoundingBox :: detection

text \<open>
  Modelled from the spec: the Centroid Tracker's state of section 4.4, the identity table
  \<open>T: id \<rightarrow> Track\<close>, the next-id counter \<open>N\<close> and the tracker's configured match
  distance threshold.  The table is scanned in a deterministic order (insertion order,
  section 9), so it is an association list: the scan runs from its head, a new key is
  appended at its end, and a key that is already present keeps its place when its track is
  replaced.
\<close>

record tracker =
  table :: "(int \<times> track) list"
  next_id :: int
  threshold :: real

text \<open>Modelled from the spec: a fresh tracker, \<open>N\<close> initialised to 0, empty table.\<close>

definition new_tracker :: "real \<Rightarrow> tracker" where
  "new_tracker thr = \<lparr>table = [], next_id = 0, threshold = thr\<rparr>"

text \<open>Modelled from the spec: the default threshold of 25 pixels.\<close>

definition EuclideanDistTracker :: tracker where
  "EuclideanDistTracker = new_tracker 25"

abbreviation keys :: "tracker \<Rightarrow> int set" where
  "keys s \<equiv> fst ` set (table s)"

abbreviation ids :: "tracked_box list \<Rightarrow> int set" where
  "ids out \<equiv> box_id ` set out"

subsection \<open>The Centroid Tracker\<close>

text \<open>Modelled from the spec: step 1a, \<open>c = (d.x + d.w/2, d.y + d.h/2)\<close>.\<close>

definition centroid_of :: "detection \<Rightarrow> real \<times> real" where
  "centroid_of d =
     (case d of (x, y, w, h) \<Rightarrow>
        (real_of_int x + real_of_int w / 2, real_of_int y + real_of_int h / 2))"

text \<open>Modelled from the spec: the Euclidean distance of step 1b.\<close>

definition euclid :: "real \<times> real \<Rightarrow> real \<times> real \<Rightarrow> real" where
  "euclid p q = sqrt ((fst p - fst q)\<^sup>2 + (snd p - snd q)\<^sup>2)"

text \<open>
  Modelled from the spec: steps 1b and 1c, the scan of the table for the first track
  whose stored centroid is at distance strictly below the threshold.
\<close>

fun find_match :: "real \<Rightarrow> real \<times> real \<Rightarrow> (int \<times> track) list \<Rightarrow> int option" where
  "find_match thr c [] = None"
| "find_match thr c ((i, t) # ts) =
     (if euclid c (centroid t) < thr then Some i else find_match thr c ts)"

text \<open>
  Modelled from the spec: storing a track under an id of the table.  An id that is
  present has its track replaced where it stands; an id that is absent is appended.
\<close>

fun put :: "int \<Rightarrow> track \<Rightarrow> (int \<times> track) list \<Rightarrow> (int \<times> track) list" where
  "put i t [] = [(i, t)]"
| "put i t ((j, u) # ts) = (if j = i then (i, t) # ts else (j, u) # put i t ts)"

text \<open>
  Modelled from the spec: steps 1a to 1d for one detection.  On a match the track's
  centroid and box are replaced at once and the detection is emitted under the track's
  id; otherwise the id \<open>N\<close> is allocated, \<open>N\<close> is incremented and a new track is
  inserted.
\<close>

definition process :: "tracker \<Rightarrow> detection \<Rightarrow> tracked_box \<times> tracker" where
  "process s d =
     (let c = centroid_of d in
      case find_match (threshold s) c (table s) of
        Some i \<Rightarrow>
          (emit d i,
           s\<lparr>table := put i \<lparr>track_id = i, centroid = c, lastBoundingBox = d\<rparr> (table s)\<rparr>)
      | None \<Rightarrow>
          (let i = next_id s in
           (emit d i,
            s\<lparr>table := put i \<lparr>track_id = i, centroid = c, lastBoundingBox = d\<rparr> (table s),
              next_id := i + 1\<rparr>)))"

text \<open>Modelled from the spec: step 1, the detections in input order.\<close>

fun process_all :: "tracker \<Rightarrow> detection list \<Rightarrow> tracked_box list \<times> tracker" where
  "process_all s [] = ([], s)"
| "process_all s (d # ds) =
     (case process s d of (b, s1) \<Rightarrow>
        (case process_all s1 ds of (bs, s2) \<Rightarrow> (b # bs, s2)))"

text \<open>
  Modelled from the spec: step 2.  A track received an update this frame exactly when a
  detection was emitted under its id, so the table keeps the entries whose id was emitted.
\<close>

definition prune :: "tracked_box list \<Rightarrow> tracker \<Rightarrow> tracker" where
  "prune out s = s\<lparr>table := filter (\<lambda>e. fst e \<in> ids out) (table s)\<rparr>"

text \<open>Modelled from the spec: the per-frame \<open>update\<close> of section 4.4, steps 1 to 3.\<close>

definition update :: "tracker \<Rightarrow> detection list \<Rightarrow> tracked_box list \<times> tracker" where
  "update s ds = (case process_all s ds of (out, s1) \<Rightarrow> (out, prune out s1))"

text \<open>
  The well-formedness of a tracker state: the table is a mapping (no id occurs twice) and
  every id in it was issued by the counter, so lies below it.
\<close>

definition tracker_inv :: "tracker \<Rightarrow> bool" where
  "tracker_inv s = (distinct (map fst (table s)) \<and> (\<forall>k \<in> keys s. k < next_id s))"

text \<open>A tracker instance's lifetime: a sequence of \<open>update\<close> calls, one per frame.\<close>

fun run :: "tracker \<Rightarrow> detection list list \<Rightarrow> tracked_box list list \<times> tracker" where
  "run s [] = ([], s)"
| "run s (ds # fs) =
     (case update s ds of (out, s1) \<Rightarrow>
        (case run s1 fs of (outs, s2) \<Rightarrow> (out # outs, s2)))"

subsection \<open>Images and the region of interest\<close>

text \<open>
  Frames are numpy arrays of 8-bit BGR pixels, masks are 8-bit single-channel arrays; both
  are lists of rows here.
\<close>

type_synonym pixel = "8 word \<times> 8 word \<times> 8 word"
type_synonym image = "pixel list list"
type_synonym gray = "8 word list list"

text \<open>The four sidebar sliders; each has minimum 0.\<close>

record roi_config =
  roi_y_start :: int
  roi_y_end :: int
  roi_x_start :: int
  roi_x_end :: int

text \<open>
  The slice \<^verbatim>\<open>a[lo:hi]\<close> for bounds that are not negative (the sliders' range); numpy
  clamps both bounds to the length, as \<open>take\<close> and \<open>drop\<close> do.
\<close>

definition py_slice :: "int \<Rightarrow> int \<Rightarrow> 'a list \<Rightarrow> 'a list" where
  "py_slice lo hi xs = take (nat hi - nat lo) (drop (nat lo) xs)"

text \<open>
  \<^verbatim>\<open>roi = frame[roi_y_start:roi_y_end, roi_x_start:roi_x_end]\<close>.  Basic slicing gives a
  view: \<open>roi\<close> has no pixels of its own, it is the window of \<open>frame\<close> at the given
  offsets.  \<open>roi_view\<close> reads the window's current content.
\<close>

definition roi_view :: "roi_config \<Rightarrow> 'a list list \<Rightarrow> 'a list list" where
  "roi_view cfg frame =
     map (py_slice (roi_x_start cfg) (roi_x_end cfg))
       (py_slice (roi_y_start cfg) (roi_y_end cfg) frame)"

text \<open>
  A drawing call on \<open>roi\<close> sets pixels given in the window's coordinates \<open>(x, y)\<close>,
  clipped to the window; as the window is a view, the pixel that changes is the one of
  \<open>frame\<close> at the window's offset.
\<close>

definition set_pixel :: "roi_config \<Rightarrow> pixel \<Rightarrow> image \<Rightarrow> int \<times> int \<Rightarrow> image" where
  "set_pixel cfg colour frame p =
     (case p of (px, py) \<Rightarrow>
        if 0 \<le> px \<and> px < roi_x_end cfg - roi_x_start cfg
           \<and> 0 \<le> py \<and> py < roi_y_end cfg - roi_y_start cfg
        then (let r = nat (roi_y_start cfg + py); c = nat (roi_x_start cfg + px)
              in if r < length frame then frame[r := (frame ! r)[c := colour]] else frame)
        else frame)"

definition paint :: "roi_config \<Rightarrow> pixel \<Rightarrow> (int \<times> int) list \<Rightarrow> image \<Rightarrow> image" where
  "paint cfg colour pts frame = foldl (set_pixel cfg colour) frame pts"

subsection \<open>The OpenCV operations the script calls\<close>

text \<open>
  OpenCV is not part of the repository, so its operations are parameters: the background
  subtractor's \<open>apply\<close> with its hidden state \<open>'seg\<close>, \<open>findContours\<close>,
  \<open>contourArea\<close>, \<open>boundingRect\<close>, and for \<open>putText\<close> and \<open>rectangle\<close> the positions
  \<open>(x, y)\<close> of the pixels the call paints (the text is \<open>str(id)\<close>, given by the id).
\<close>

record ('seg, 'cnt) opencv =
  mog2_apply :: "'seg \<Rightarrow> image \<Rightarrow> gray \<times> 'seg"
  findContours :: "gray \<Rightarrow> 'cnt list"
  contourArea :: "'cnt \<Rightarrow> real"
  boundingRect :: "'cnt \<Rightarrow> detection"
  putText_pixels :: "int \<Rightarrow> int \<times> int \<Rightarrow> (int \<times> int) list"
  rectangle_pixels :: "int \<times> int \<Rightarrow> int \<times> int \<Rightarrow> (int \<times> int) list"

text \<open>\<^verbatim>\<open>cv2.threshold(mask, 254, 255, cv2.THRESH_BINARY)\<close>\<close>

definition threshold_binary :: "gray \<Rightarrow> gray" where
  "threshold_binary m = map (map (\<lambda>v. if 254 < v then 255 else 0)) m"

subsection \<open>Detection Extractor\<close>

text \<open>
  The contour loop of the script: \<open>detections\<close> starts empty, and a contour whose area
  is above 100 appends its bounding rectangle.
\<close>

fun contour_loop ::
  "('cnt \<Rightarrow> real) \<Rightarrow> ('cnt \<Rightarrow> detection) \<Rightarrow> 'cnt list \<Rightarrow> detection list \<Rightarrow> detection list"
where
  "contour_loop area rect [] detections = detections"
| "contour_loop area rect (cnt # cnts) detections =
     (if area cnt > 100
      then contour_loop area rect cnts (detections @ [rect cnt])
      else contour_loop area rect cnts detections)"

definition extract_detections :: "('seg, 'cnt) opencv \<Rightarrow> gray \<Rightarrow> detection list" where
  "extract_detections cv binary =
     contour_loop (contourArea cv) (boundingRect cv) (findContours cv binary) []"

subsection \<open>Annotator\<close>

text \<open>
  \<^verbatim>\<open>cv2.putText(roi, str(id), (x, y - 15), ..., (255, 0, 0), 2)\<close> and
  \<^verbatim>\<open>cv2.rectangle(roi, (x, y), (x + w, y + h), (0, 255, 0), 3)\<close>, for each tracked box in
  turn.  Both draw on \<open>roi\<close> in place, that is, through the view into \<open>frame\<close>.
\<close>

definition draw_box ::
  "('seg, 'cnt) opencv \<Rightarrow> roi_config \<Rightarrow> image \<Rightarrow> tracked_box \<Rightarrow> image" where
  "draw_box cv cfg frame b =
     (case b of (x, y, w, h, i) \<Rightarrow>
        paint cfg (0, 255, 0) (rectangle_pixels cv (x, y) (x + w, y + h))
          (paint cfg (255, 0, 0) (putText_pixels cv i (x, y - 15)) frame))"

definition annotate ::
  "('seg, 'cnt) opencv \<Rightarrow> roi_config \<Rightarrow> tracked_box list \<Rightarrow> image \<Rightarrow> image" where
  "annotate cv cfg boxes_ids frame = foldl (draw_box cv cfg) frame boxes_ids"

subsection \<open>Pipeline Driver\<close>

text \<open>The properties read from the opened capture, and the frames it yields.\<close>

record video_source =
  cap_isOpened :: bool
  width :: int
  height :: int
  fps :: int
  frame_count :: int
  cap_frames :: "image list"

text \<open>
  What the environment answers: whether each of the three video writers opens, and
  whether the three output files exist and are not empty after the writers are released.
\<close>

record environment =
  tracked_isOpened :: bool
  roi_isOpened :: bool
  mask_isOpened :: bool
  outputs_verified :: bool

text \<open>
  The exceptions a run can raise: Python's on a division by zero, and Streamlit's when
  \<open>progress_bar.progress\<close> is given a value outside \<open>[0.0, 1.0]\<close>.
\<close>

datatype exception = ZeroDivisionError | StreamlitAPIException

text \<open>The message the script ends with (\<open>st.error\<close>, \<open>st.success\<close>).\<close>

datatype outcome =
    Running
  | CouldNotOpenVideo
  | InvalidROI
  | ROIExceedsDimensions
  | CouldNotInitializeWriters
  | OutputNotCreated
  | AnErrorOccurred exception
  | ProcessingComplete

text \<open>
  The state of one run: the message, which handles are open (opened and not released),
  which temporary files exist, the tracker and the background subtractor, the frames
  written to each writer so far, and the progress counter.
\<close>

record 'seg state =
  message :: outcome
  cap_open :: bool
  tracked_open :: bool
  roi_open :: bool
  mask_open :: bool
  video_path :: bool
  tracked_output_file :: bool
  roi_output_file :: bool
  mask_output_file :: bool
  tracker :: tracker
  object_detector :: 'seg
  tracked_out :: "image list"
  roi_out :: "image list"
  mask_out :: "gray list"
  processed_frames :: nat

text \<open>
  \<^verbatim>\<open>progress = min(processed_frames / frame_count, 1.0)\<close>: Python's true division raises
  \<open>ZeroDivisionError\<close> on a zero divisor.
\<close>

definition progress :: "nat \<Rightarrow> int \<Rightarrow> exception + real" where
  "progress n fc =
     (if fc = 0 then Inl ZeroDivisionError
      else Inr (min (real n / real_of_int fc) 1))"

text \<open>
  \<^verbatim>\<open>progress_bar.progress(progress)\<close>: Streamlit accepts a float only in
  \<open>[0.0, 1.0]\<close> and raises otherwise.
\<close>

definition progress_bar_progress :: "real \<Rightarrow> exception + unit" where
  "progress_bar_progress p =
     (if 0 \<le> p \<and> p \<le> 1 then Inr () else Inl StreamlitAPIException)"

text \<open>
  The progress update at the end of the loop body: the division, then the progress bar;
  the result is the exception raised, if any.
\<close>

definition update_progress :: "nat \<Rightarrow> int \<Rightarrow> exception option" where
  "update_progress n fc =
     (case progress n fc of
        Inl e \<Rightarrow> Some e
      | Inr p \<Rightarrow> (case progress_bar_progress p of Inl e \<Rightarrow> Some e | Inr u \<Rightarrow> None))"

text \<open>
  The body of the \<open>while\<close> loop up to the increment of \<open>processed_frames\<close>.  The
  annotations change \<open>frame\<close> through the view; \<open>tracked_out\<close> is then given \<open>frame\<close>,
  \<open>roi_out\<close> the content of the view and \<open>mask_out\<close> the binary mask.
\<close>

definition process_frame ::
  "('seg, 'cnt) opencv \<Rightarrow> roi_config \<Rightarrow> 'seg state \<Rightarrow> image \<Rightarrow> 'seg state" where
  "process_frame cv cfg st frame =
     (case mog2_apply cv (object_detector st) (roi_view cfg frame) of
        (raw, seg1) \<Rightarrow>
          (let binary = threshold_binary raw;
               detections = extract_detections cv binary
           in case update (tracker st) detections of
                (boxes_ids, tracker1) \<Rightarrow>
                  (let frame1 = annotate cv cfg boxes_ids frame
                   in st\<lparr>tracker := tracker1,
                         object_detector := seg1,
                         tracked_out := tracked_out st @ [frame1],
                         roi_out := roi_out st @ [roi_view cfg frame1],
                         mask_out := mask_out st @ [binary],
                         processed_frames := processed_frames st + 1\<rparr>)))"

text \<open>
  The \<open>while True\<close> loop: \<open>cap.read()\<close> yields the frames in order and then fails, which
  breaks the loop; an exception leaves the loop with the state reached.
\<close>

fun frames_loop ::
  "('seg, 'cnt) opencv \<Rightarrow> roi_config \<Rightarrow> int \<Rightarrow> 'seg state \<Rightarrow> image list
     \<Rightarrow> 'seg state \<times> exception option"
where
  "frames_loop cv cfg fc st [] = (st, None)"
| "frames_loop cv cfg fc st (frame # rest) =
     (let st1 = process_frame cv cfg st frame
      in case update_progress (processed_frames st1) fc of
           Some e \<Rightarrow> (st1, Some e)
         | None \<Rightarrow> frames_loop cv cfg fc st1 rest)"

text \<open>The state once the upload is saved to \<open>video_path\<close> and the capture is created.\<close>

definition initial :: "'seg \<Rightarrow> video_source \<Rightarrow> 'seg state" where
  "initial seg0 cap =
     \<lparr>message = Running, cap_open = cap_isOpened cap,
      tracked_open = False, roi_open = False, mask_open = False,
      video_path = True,
      tracked_output_file = False, roi_output_file = False, mask_output_file = False,
      tracker = EuclideanDistTracker, object_detector = seg0,
      tracked_out = [], roi_out = [], mask_out = [], processed_frames = 0\<rparr>"

text \<open>
  The three \<open>NamedTemporaryFile(delete=False)\<close> calls create the output files; each
  \<open>VideoWriter\<close> is open when the environment lets it open.
\<close>

definition create_writers :: "environment \<Rightarrow> 'seg state \<Rightarrow> 'seg state" where
  "create_writers env st =
     st\<lparr>tracked_output_file := True, roi_output_file := True, mask_output_file := True,
        tracked_open := tracked_isOpened env, roi_open := roi_isOpened env,
        mask_open := mask_isOpened env\<rparr>"

definition release_writers :: "'seg state \<Rightarrow> 'seg state" where
  "release_writers st = st\<lparr>tracked_open := False, roi_open := False, mask_open := False\<rparr>"

definition unlink_outputs :: "'seg state \<Rightarrow> 'seg state" where
  "unlink_outputs st =
     st\<lparr>tracked_output_file := False, roi_output_file := False, mask_output_file := False\<rparr>"

text \<open>
  The script from the opening of the capture to its end, for an uploaded file.  Each
  \<open>st.stop()\<close> ends the run with the state reached (it is not an \<open>Exception\<close>, so the
  handler does not run); the \<open>except Exception\<close> handler releases every handle and
  unlinks every file.
\<close>

definition main ::
  "('seg, 'cnt) opencv \<Rightarrow> 'seg \<Rightarrow> roi_config \<Rightarrow> video_source \<Rightarrow> environment \<Rightarrow> 'seg state"
where
  "main cv seg0 cfg cap env =
     (let st = initial seg0 cap in
      if \<not> cap_isOpened cap
      then st\<lparr>message := CouldNotOpenVideo, video_path := False\<rparr>
      else if roi_y_end cfg \<le> roi_y_start cfg \<or> roi_x_end cfg \<le> roi_x_start cfg
      then st\<lparr>message := InvalidROI, cap_open := False, video_path := False\<rparr>
      else if roi_y_end cfg > height cap \<or> roi_x_end cfg > width cap
      then st\<lparr>message := ROIExceedsDimensions, cap_open := False, video_path := False\<rparr>
      else
        (let st1 = create_writers env st in
         if \<not> (tracked_isOpened env \<and> roi_isOpened env \<and> mask_isOpened env)
         then st1\<lparr>message := CouldNotInitializeWriters, cap_open := False,
                  video_path := False\<rparr>
         else
           (case frames_loop cv cfg (frame_count cap) st1 (cap_frames cap) of
              (st2, Some e) \<Rightarrow>
                (unlink_outputs (release_writers st2))
                  \<lparr>message := AnErrorOccurred e, cap_open := False, video_path := False\<rparr>
            | (st2, None) \<Rightarrow>
                (let st3 = (release_writers st2)\<lparr>cap_open := False\<rparr> in
                 if \<not> outputs_verified env
                 then (unlink_outputs st3)\<lparr>message := OutputNotCreated, video_path := False\<rparr>
                 else (unlink_outputs st3)\<lparr>message := ProcessingComplete,
                         video_path := False\<rparr>))))"

text \<open>
  The specification's \<open>InvalidRegion\<close> covers both ROI messages of the script.
\<close>

definition InvalidRegion :: "outcome \<Rightarrow> bool" where
  "InvalidRegion m = (m = InvalidROI \<or> m = ROIExceedsDimensions)"

text \<open>
  The specification's condition for \<open>InvalidRegion\<close>, in its words: \<open>yEnd \<le> yStart\<close>,
  \<open>xEnd \<le> xStart\<close>, or the rectangle exceeds the frame's dimensions, that is, it is not
  contained in the frame \<open>[0, width) \<times> [0, height)\<close>.
\<close>

definition exceeds_frame :: "roi_config \<Rightarrow> video_source \<Rightarrow> bool" where
  "exceeds_frame cfg cap =
     (roi_y_start cfg < 0 \<or> roi_x_start cfg < 0
      \<or> height cap < roi_y_end cfg \<or> width cap < roi_x_end cfg)"

definition invalid_region_spec :: "roi_config \<Rightarrow> video_source \<Rightarrow> bool" where
  "invalid_region_spec cfg cap =
     (roi_y_end cfg \<le> roi_y_start cfg \<or> roi_x_end cfg \<le> roi_x_start cfg
      \<or> exceeds_frame cfg cap)"

subsection \<open>The annotated ROI as an image of its own\<close>

text \<open>
  The annotated ROI in the specification's sense: the same drawing calls applied to an
  image that owns its pixels (a copy of the window), clipped to that image.  The drawing
  calls of the script are compared with it.
\<close>

definition set_pixel_copy :: "pixel \<Rightarrow> image \<Rightarrow> int \<times> int \<Rightarrow> image" where
  "set_pixel_copy colour img p =
     (case p of (px, py) \<Rightarrow>
        if 0 \<le> px \<and> 0 \<le> py \<and> nat py < length img \<and> nat px < length (img ! nat py)
        then img[nat py := (img ! nat py)[nat px := colour]]
        else img)"

definition paint_copy :: "pixel \<Rightarrow> (int \<times> int) list \<Rightarrow> image \<Rightarrow> image" where
  "paint_copy colour pts img = foldl (set_pixel_copy colour) img pts"

definition draw_box_copy :: "('seg, 'cnt) opencv \<Rightarrow> image \<Rightarrow> tracked_box \<Rightarrow> image" where
  "draw_box_copy cv img b =
     (case b of (x, y, w, h, i) \<Rightarrow>
        paint_copy (0, 255, 0) (rectangle_pixels cv (x, y) (x + w, y + h))
          (paint_copy (255, 0, 0) (putText_pixels cv i (x, y - 15)) img))"

definition annotate_copy ::
  "('seg, 'cnt) opencv \<Rightarrow> tracked_box list \<Rightarrow> image \<Rightarrow> image" where
  "annotate_copy cv boxes_ids img = foldl (draw_box_copy cv) img boxes_ids"

text \<open>
  The value of \<open>boxes_ids\<close> in each iteration of the loop: the background subtractor,
  the threshold, the contours and the tracker, run over the frames in order from the
  given tracker and subtractor states.
\<close>

fun frame_boxes ::
  "('seg, 'cnt) opencv \<Rightarrow> roi_config \<Rightarrow> tracker \<Rightarrow> 'seg \<Rightarrow> image list
     \<Rightarrow> tracked_box list list"
where
  "frame_boxes cv cfg trk seg [] = []"
| "frame_boxes cv cfg trk seg (frame # rest) =
     (case mog2_apply cv seg (roi_view cfg frame) of
        (raw, seg1) \<Rightarrow>
          (case update trk (extract_detections cv (threshold_binary raw)) of
             (boxes_ids, trk1) \<Rightarrow> boxes_ids # frame_boxes cv cfg trk1 seg1 rest))"

text \<open>
  A frame has the capture's shape: \<open>height\<close> rows of \<open>width\<close> pixels.
\<close>

definition has_shape :: "video_source \<Rightarrow> image \<Rightarrow> bool" where
  "has_shape cap frame =
     (int (length frame) = height cap \<and> (\<forall>row \<in> set frame. int (length row) = width cap))"

subsection \<open>A concrete run\<close>

text \<open>
  The position \<open>(r, c)\<close> of a frame (row, column) lies in the ROI rectangle.
\<close>

definition in_roi :: "roi_config \<Rightarrow> nat \<Rightarrow> nat \<Rightarrow> bool" where
  "in_roi cfg r c =
     (roi_y_start cfg \<le> int r \<and> int r < roi_y_end cfg
      \<and> roi_x_start cfg \<le> int c \<and> int c < roi_x_end cfg)"

text \<open>
  Two frames have the same shape and the same pixels outside the ROI rectangle.
\<close>

definition agrees_outside :: "roi_config \<Rightarrow> image \<Rightarrow> image \<Rightarrow> bool" where
  "agrees_outside cfg a b =
     (length a = length b
      \<and> (\<forall>r < length b. length (a ! r) = length (b ! r)
            \<and> (\<forall>c < length (b ! r). \<not> in_roi cfg r c \<longrightarrow> a ! r ! c = b ! r ! c)))"

text \<open>
  The answers of OpenCV on the example run below, whose frames are 12 by 12 with the ROI
  covering them: the subtractor marks every pixel of a first frame as foreground; the
  mask then has one contour, its border, given here by its bounding rectangle
  \<open>(0, 0, cols, rows)\<close>, of area \<open>(cols - 1) * (rows - 1)\<close>; the text of a box at \<open>y = 0\<close>
  lies above the window and paints nothing; a rectangle paints, among others, its two
  corner points.
\<close>

definition example_cv :: "(unit, detection) opencv" where
  "example_cv =
     \<lparr>mog2_apply = (\<lambda>seg roi. (map (map (\<lambda>p. 255)) roi, seg)),
      findContours =
        (\<lambda>m. if m = [] then [] else [(0, 0, int (length (hd m)), int (length m))]),
      contourArea = (\<lambda>cnt. case cnt of (x, y, w, h) \<Rightarrow> real_of_int ((w - 1) * (h - 1))),
      boundingRect = (\<lambda>cnt. cnt),
      putText_pixels = (\<lambda>i p. []),
      rectangle_pixels = (\<lambda>p q. [p, q])\<rparr>"

definition black_frame :: image where
  "black_frame = replicate 12 (replicate 12 (0, 0, 0))"

definition example_roi :: roi_config where
  "example_roi = \<lparr>roi_y_start = 0, roi_y_end = 12, roi_x_start = 0, roi_x_end = 12\<rparr>"

text \<open>An opened 12 by 12 capture that reports \<open>n\<close> frames and yields \<open>fs\<close>.\<close>

definition example_cap :: "int \<Rightarrow> image list \<Rightarrow> video_source" where
  "example_cap n fs =
     \<lparr>cap_isOpened = True, width = 12, height = 12, fps = 30, frame_count = n,
      cap_frames = fs\<rparr>"

definition writers_ok :: environment where
  "writers_ok =
     \<lparr>tracked_isOpened = True, roi_isOpened = True, mask_isOpened = True,
      outputs_verified = True\<rparr>"

text \<open>
  A second run, on 14 by 16 frames, with a 12 by 12 ROI strictly inside the frame: rows 1
  to 12, columns 2 to 13.
\<close>

definition wide_frame :: image where
  "wide_frame = replicate 14 (replicate 16 (0, 0, 0))"

definition inner_roi :: roi_config where
  "inner_roi = \<lparr>roi_y_start = 1, roi_y_end = 13, roi_x_start = 2, roi_x_end = 14\<rparr>"

definition wide_cap :: "image list \<Rightarrow> video_source" where
  "wide_cap fs =
     \<lparr>cap_isOpened = True, width = 16, height = 14, fps = 30,
      frame_count = int (length fs), cap_frames = fs\<rparr>"

section \<open>Properties of the tracker\<close>

lemma box_of_emit: "box_of (emit d i) = d"
  by (cases d) (simp add: box_of_def emit_def)

lemma box_id_emit: "box_id (emit d i) = i"
  by (cases d) (simp add: box_id_def emit_def)

lemma fst_process_box: "box_of (fst (process s d)) = d"
  by (simp add: process_def Let_def box_of_emit split: option.split)

lemma process_all_boxes: "map box_of (fst (process_all s ds)) = ds"
proof (induction ds arbitrary: s)
  case Nil
  show ?case by simp
next
  case (Cons d ds)
  obtain b s1 where p: "process s d = (b, s1)" by (cases "process s d")
  obtain bs s2 where q: "process_all s1 ds = (bs, s2)" by (cases "process_all s1 ds")
  from fst_process_box [of s d] p have "box_of b = d" by simp
  moreover from Cons.IH [of s1] q have "map box_of bs = ds" by simp
  ultimately show ?case using p q by simp
qed

subsection \<open>Distances\<close>

lemma euclid_less_iff:
  "euclid p q < r \<longleftrightarrow> 0 < r \<and> (fst p - fst q)\<^sup>2 + (snd p - snd q)\<^sup>2 < r\<^sup>2"
proof -
  let ?x = "(fst p - fst q)\<^sup>2 + (snd p - snd q)\<^sup>2"
  have x: "0 \<le> ?x" by simp
  show ?thesis
  proof
    assume a: "euclid p q < r"
    have "0 \<le> sqrt ?x" using x by simp
    with a have r: "0 < r" unfolding euclid_def by linarith
    from a have "(sqrt ?x)\<^sup>2 < r\<^sup>2"
      unfolding euclid_def using x by (intro power_strict_mono) auto
    with x r show "0 < r \<and> ?x < r\<^sup>2" by simp
  next
    assume "0 < r \<and> ?x < r\<^sup>2"
    then show "euclid p q < r"
      unfolding euclid_def by (intro real_less_lsqrt) auto
  qed
qed

lemma euclid_eq_iff:
  "0 \<le> r \<Longrightarrow> euclid p q = r \<longleftrightarrow> (fst p - fst q)\<^sup>2 + (snd p - snd q)\<^sup>2 = r\<^sup>2"
  unfolding euclid_def
  by (metis abs_of_nonneg real_sqrt_abs real_sqrt_pow2 real_sqrt_ge_zero sum_power2_ge_zero)

text \<open>The equations that evaluate the tracker on concrete detections.\<close>

lemmas tracker_eval =
  update_def process_def prune_def centroid_of_def emit_def box_id_def box_of_def
  new_tracker_def EuclideanDistTracker_def euclid_less_iff Let_def

subsection \<open>The table and the counter\<close>

lemma keys_put: "fst ` set (put i t tbl) = insert i (fst ` set tbl)"
  by (induction i t tbl rule: put.induct) auto

lemma distinct_put: "distinct (map fst tbl) \<Longrightarrow> distinct (map fst (put i t tbl))"
proof (induction tbl)
  case Nil
  show ?case by simp
next
  case (Cons e tbl)
  obtain j u where e: "e = (j, u)" by (cases e)
  show ?case
  proof (cases "j = i")
    case True
    with Cons.prems e show ?thesis by simp
  next
    case False
    with Cons e show ?thesis by (simp add: keys_put)
  qed
qed

lemma find_match_Some:
  "find_match thr c tbl = Some i \<Longrightarrow> \<exists>t. (i, t) \<in> set tbl \<and> euclid c (centroid t) < thr"
  by (induction thr c tbl rule: find_match.induct) (auto split: if_splits)

lemma find_match_None:
  "find_match thr c tbl = None \<longleftrightarrow> (\<forall>e \<in> set tbl. \<not> euclid c (centroid (snd e)) < thr)"
  by (induction thr c tbl rule: find_match.induct) auto

lemma process_match:
  "find_match (threshold s) (centroid_of d) (table s) = Some i \<Longrightarrow>
   process s d = (emit d i,
      s\<lparr>table := put i \<lparr>track_id = i, centroid = centroid_of d, lastBoundingBox = d\<rparr> (table s)\<rparr>)"
  by (simp add: process_def)

lemma process_new:
  "find_match (threshold s) (centroid_of d) (table s) = None \<Longrightarrow>
   process s d = (emit d (next_id s),
      s\<lparr>table := put (next_id s) \<lparr>track_id = next_id s, centroid = centroid_of d, lastBoundingBox = d\<rparr> (table s),
        next_id := next_id s + 1\<rparr>)"
  by (simp add: process_def Let_def)

lemma process_cases:
  assumes "process s d = (b, s1)"
  shows "threshold s1 = threshold s
    \<and> keys s1 = insert (box_id b) (keys s)
    \<and> (distinct (map fst (table s)) \<longrightarrow> distinct (map fst (table s1)))
    \<and> ((box_id b \<in> keys s \<and> next_id s1 = next_id s
         \<and> find_match (threshold s) (centroid_of d) (table s) = Some (box_id b))
       \<or> (box_id b = next_id s \<and> next_id s1 = next_id s + 1
         \<and> find_match (threshold s) (centroid_of d) (table s) = None))"
proof (cases "find_match (threshold s) (centroid_of d) (table s)")
  case None
  from process_new [OF None] assms show ?thesis
    using None by (auto simp: keys_put box_id_emit distinct_put)
next
  case (Some i)
  from find_match_Some [OF Some] have "i \<in> keys s" by force
  with process_match [OF Some] assms show ?thesis
    using Some by (auto simp: keys_put box_id_emit distinct_put)
qed

lemma process_all_facts:
  assumes "process_all s ds = (out, s2)"
  shows "threshold s2 = threshold s
    \<and> keys s2 = ids out \<union> keys s
    \<and> (distinct (map fst (table s)) \<longrightarrow> distinct (map fst (table s2)))
    \<and> next_id s \<le> next_id s2
    \<and> ids out \<subseteq> keys s \<union> {next_id s ..< next_id s2}
    \<and> ((\<forall>k \<in> keys s. k < next_id s) \<longrightarrow> {next_id s ..< next_id s2} \<subseteq> ids out)"
  using assms
proof (induction ds arbitrary: s out s2)
  case Nil
  then show ?case by simp
next
  case (Cons d ds)
  obtain b s1 where p: "process s d = (b, s1)" by (cases "process s d")
  obtain bs s2' where q: "process_all s1 ds = (bs, s2')" by (cases "process_all s1 ds")
  from Cons.prems p q have o: "out = b # bs" and s2: "s2' = s2" by simp_all
  note P = process_cases [OF p]
  note Q = Cons.IH [OF q [unfolded s2]]
  from P have P1: "threshold s1 = threshold s" and P2: "keys s1 = insert (box_id b) (keys s)"
    and P3: "distinct (map fst (table s)) \<longrightarrow> distinct (map fst (table s1))"
    and P4: "(box_id b \<in> keys s \<and> next_id s1 = next_id s)
       \<or> (box_id b = next_id s \<and> next_id s1 = next_id s + 1)" by blast+
  from Q have Q1: "threshold s2 = threshold s1" and Q2: "keys s2 = ids bs \<union> keys s1"
    and Q3: "distinct (map fst (table s1)) \<longrightarrow> distinct (map fst (table s2))"
    and Q4: "next_id s1 \<le> next_id s2"
    and Q5: "ids bs \<subseteq> keys s1 \<union> {next_id s1 ..< next_id s2}"
    and Q6: "(\<forall>k \<in> keys s1. k < next_id s1) \<longrightarrow> {next_id s1 ..< next_id s2} \<subseteq> ids bs"
    by blast+
  have 1: "threshold s2 = threshold s" using P1 Q1 by simp
  have 2: "keys s2 = ids out \<union> keys s" using P2 Q2 o by auto
  have 3: "distinct (map fst (table s)) \<longrightarrow> distinct (map fst (table s2))" using P3 Q3 by simp
  have 4: "next_id s \<le> next_id s2" using P4 Q4 by auto
  have 5: "ids out \<subseteq> keys s \<union> {next_id s ..< next_id s2}"
  proof
    fix i assume "i \<in> ids out"
    with o have "i = box_id b \<or> i \<in> ids bs" by auto
    then show "i \<in> keys s \<union> {next_id s ..< next_id s2}"
    proof
      assume "i = box_id b"
      with P4 Q4 show ?thesis by auto
    next
      assume "i \<in> ids bs"
      with Q5 have "i \<in> keys s1 \<or> (next_id s1 \<le> i \<and> i < next_id s2)" by auto
      with P2 P4 Q4 show ?thesis by auto
    qed
  qed
  have 6: "{next_id s ..< next_id s2} \<subseteq> ids out" if inv: "\<forall>k \<in> keys s. k < next_id s"
  proof -
    from P2 P4 inv have inv1: "\<forall>k \<in> keys s1. k < next_id s1" by auto
    with Q6 have sub: "{next_id s1 ..< next_id s2} \<subseteq> ids bs" by simp
    show ?thesis
    proof
      fix i assume i: "i \<in> {next_id s ..< next_id s2}"
      show "i \<in> ids out"
      proof (cases "i = box_id b")
        case True
        with o show ?thesis by simp
      next
        case False
        with P4 i inv have "i \<in> {next_id s1 ..< next_id s2}" by auto
        with sub o show ?thesis by auto
      qed
    qed
  qed
  from 1 2 3 4 5 6 show ?case by blast
qed

lemma update_facts:
  assumes "update s ds = (out, s')"
  shows "threshold s' = threshold s
    \<and> keys s' = ids out
    \<and> (distinct (map fst (table s)) \<longrightarrow> distinct (map fst (table s')))
    \<and> next_id s \<le> next_id s'
    \<and> ids out \<subseteq> keys s \<union> {next_id s ..< next_id s'}
    \<and> ((\<forall>k \<in> keys s. k < next_id s) \<longrightarrow> {next_id s ..< next_id s'} \<subseteq> ids out)"
proof -
  obtain s1 where p: "process_all s ds = (out, s1)" and s': "s' = prune out s1"
    using assms by (auto simp: update_def split: prod.splits)
  note F = process_all_facts [OF p]
  from F have F2: "keys s1 = ids out \<union> keys s"
    and F3: "distinct (map fst (table s)) \<longrightarrow> distinct (map fst (table s1))" by blast+
  have t: "table s' = filter (\<lambda>e. fst e \<in> ids out) (table s1)"
    and n: "next_id s' = next_id s1" and th: "threshold s' = threshold s1"
    using s' by (simp_all add: prune_def)
  have k: "keys s' = ids out"
  proof
    show "keys s' \<subseteq> ids out" using t by auto
    show "ids out \<subseteq> keys s'"
    proof
      fix i assume i: "i \<in> ids out"
      with F2 have "i \<in> keys s1" by simp
      then obtain e where "e \<in> set (table s1)" "fst e = i" by (auto simp: image_iff)
      with i t show "i \<in> keys s'" by force
    qed
  qed
  have d: "distinct (map fst (table s)) \<longrightarrow> distinct (map fst (table s'))"
    using F3 t by (simp add: distinct_map_filter)
  from F k d n th show ?thesis by simp
qed

lemma update_inv:
  assumes "update s ds = (out, s')" and "tracker_inv s"
  shows "tracker_inv s'"
proof -
  note U = update_facts [OF assms(1)]
  from U have U2: "keys s' = ids out"
    and U5: "ids out \<subseteq> keys s \<union> {next_id s ..< next_id s'}"
    and U4: "next_id s \<le> next_id s'" by blast+
  from U assms(2) have "distinct (map fst (table s'))" by (simp add: tracker_inv_def)
  moreover have "k < next_id s'" if "k \<in> keys s'" for k
  proof -
    from that U2 U5 have "k \<in> keys s \<or> k < next_id s'" by auto
    with assms(2) U4 show ?thesis by (auto simp: tracker_inv_def)
  qed
  ultimately show ?thesis by (simp add: tracker_inv_def)
qed

lemma new_tracker_inv: "tracker_inv (new_tracker thr)"
  by (simp add: tracker_inv_def new_tracker_def)

lemma run_facts:
  assumes "run s fs = (outs, s')" and "tracker_inv s"
  shows "tracker_inv s'
    \<and> next_id s \<le> next_id s'
    \<and> (\<forall>out \<in> set outs. \<forall>i \<in> ids out. i < next_id s')
    \<and> (\<forall>i. i < next_id s \<and> i \<notin> keys s \<longrightarrow> (\<forall>out \<in> set outs. i \<notin> ids out))"
  using assms
proof (induction fs arbitrary: s outs s')
  case Nil
  then show ?case by simp
next
  case (Cons ds fs)
  obtain out s1 where u: "update s ds = (out, s1)" by (cases "update s ds")
  obtain os s2 where r: "run s1 fs = (os, s2)" by (cases "run s1 fs")
  from Cons.prems(1) u r have o: "outs = out # os" and s2: "s2 = s'" by simp_all
  have inv1: "tracker_inv s1" by (rule update_inv [OF u Cons.prems(2)])
  from update_facts [OF u] have U2: "keys s1 = ids out"
    and U4: "next_id s \<le> next_id s1"
    and U5: "ids out \<subseteq> keys s \<union> {next_id s ..< next_id s1}" by blast+
  from Cons.IH [OF r [unfolded s2] inv1] have I1: "tracker_inv s'"
    and I2: "next_id s1 \<le> next_id s'"
    and I3: "\<forall>out \<in> set os. \<forall>i \<in> ids out. i < next_id s'"
    and I4: "\<forall>i. i < next_id s1 \<and> i \<notin> keys s1 \<longrightarrow> (\<forall>out \<in> set os. i \<notin> ids out)"
    by blast+
  have a: "\<forall>i \<in> ids out. i < next_id s'"
  proof
    fix i assume "i \<in> ids out"
    with U2 inv1 have "i < next_id s1" by (auto simp: tracker_inv_def)
    with I2 show "i < next_id s'" by simp
  qed
  have b: "\<forall>out' \<in> set outs. i \<notin> ids out'" if i: "i < next_id s" "i \<notin> keys s" for i
  proof -
    from i U5 have n: "i \<notin> ids out" by auto
    with U2 U4 i have "i < next_id s1 \<and> i \<notin> keys s1" by simp
    with I4 have "\<forall>out \<in> set os. i \<notin> ids out" by blast
    with n o show ?thesis by simp
  qed
  from I1 U4 I2 a I3 o b show ?case by auto
qed

lemma find_match_append:
  "find_match thr c (pre @ rest) =
     (case find_match thr c pre of Some i \<Rightarrow> Some i | None \<Rightarrow> find_match thr c rest)"
  by (induction thr c pre rule: find_match.induct) auto




lemma fst_process:
  "fst (process s d) =
     (case d of (x, y, w, h) \<Rightarrow>
        (x, y, w, h,
         case find_match (threshold s) (centroid_of d) (table s) of
           Some i \<Rightarrow> i | None \<Rightarrow> next_id s))"
  by (cases d) (simp add: process_def Let_def emit_def split: option.split)


lemma process_all_nth:
  "k < length ds \<Longrightarrow>
     fst (process_all s ds) ! k = fst (process (snd (process_all s (take k ds))) (ds ! k))"
proof (induction ds arbitrary: s k)
  case Nil
  then show ?case by simp
next
  case (Cons d ds)
  obtain b s1 where p: "process s d = (b, s1)" by (cases "process s d")
  obtain bs s2 where q: "process_all s1 ds = (bs, s2)" by (cases "process_all s1 ds")
  show ?case
  proof (cases k)
    case 0
    with p q show ?thesis by simp
  next
    case (Suc n)
    with Cons.prems have n: "n < length ds" by simp
    obtain cs s3 where r: "process_all s1 (take n ds) = (cs, s3)"
      by (cases "process_all s1 (take n ds)")
    from Cons.IH [OF n, of s1] q r have "bs ! n = fst (process s3 (ds ! n))" by simp
    with Suc p q r show ?thesis by simp
  qed
qed

lemma update_single: "fst (update s [d]) = [fst (process s d)]"
  by (cases "process s d") (simp add: update_def)


lemma euclid_le_iff:
  "r \<le> euclid p q \<longleftrightarrow> \<not> (0 < r \<and> (fst p - fst q)\<^sup>2 + (snd p - snd q)\<^sup>2 < r\<^sup>2)"
  using euclid_less_iff [of p q r] by auto

section \<open>The claims about the tracker\<close>

text \<open>
  C1: after \<open>update\<close> returns, the identity table holds exactly one entry per id of the
  returned sequence and no others: for a table that is a mapping (no id twice), the ids of
  the new table are again pairwise distinct, they are exactly the ids returned, and so
  the table has as many entries as there are ids returned.  For any prior state whatever,
  \<open>update\<close> on the empty detection sequence returns the empty sequence and empties the
  table.
\<close>

theorem update_table_is_output_ids:
  "(distinct (map fst (table s)) \<longrightarrow>
      distinct (map fst (table (snd (update s ds))))
      \<and> keys (snd (update s ds)) = ids (fst (update s ds))
      \<and> length (table (snd (update s ds))) = card (ids (fst (update s ds))))
   \<and> update s [] = ([], s\<lparr>table := []\<rparr>)"
proof -
  obtain out s' where u: "update s ds = (out, s')" by (cases "update s ds")
  from update_facts [OF u] have k: "keys s' = ids out"
    and d: "distinct (map fst (table s)) \<longrightarrow> distinct (map fst (table s'))" by blast+
  have "length (table s') = card (ids out)" if "distinct (map fst (table s'))"
  proof -
    from that have "card (set (map fst (table s'))) = length (map fst (table s'))"
      by (rule distinct_card)
    with k show ?thesis by simp
  qed
  moreover have "update s [] = ([], s\<lparr>table := []\<rparr>)"
    by (simp add: update_def prune_def)
  ultimately show ?thesis using u k d by simp
qed

theorem update_table_is_output_ids_witness:
  "distinct (map fst (table (snd (update EuclideanDistTracker [(10, 10, 20, 20), (100, 100, 20, 20)]))))
   \<and> keys (snd (update (snd (update EuclideanDistTracker [(10, 10, 20, 20), (100, 100, 20, 20)]))
         [(12, 11, 20, 20)])) = {0}
   \<and> ids (fst (update (snd (update EuclideanDistTracker [(10, 10, 20, 20), (100, 100, 20, 20)]))
         [(12, 11, 20, 20)])) = {0}
   \<and> table (snd (update (snd (update EuclideanDistTracker [(10, 10, 20, 20), (100, 100, 20, 20)])) []))
       = []"
  using update_table_is_output_ids
    [of "snd (update EuclideanDistTracker [(10, 10, 20, 20), (100, 100, 20, 20)])" "[(12, 11, 20, 20)]"]
  by (simp add: tracker_eval)

text \<open>
  C2: in the lifetime of one tracker (any sequence \<open>fs\<close> of frames from a new tracker,
  followed by one more \<open>update\<close> and then any further frames \<open>gs\<close>): the counter never
  decreases; the ids given to the tracks created by the call are exactly the counter
  values from the old counter up to the new one, so the counter grows by one per new
  track; every id issued earlier lies below the counter, so an id returned by the call is
  either that of a track active before it or one that was never issued; no two entries of
  the table share an id; and an id that was issued and is no longer in the table (its
  track was retired) is never returned again.
\<close>

theorem identity_counter:
  assumes "run (new_tracker thr) fs = (outs, s)" and "update s ds = (out, s')"
  shows "next_id s \<le> next_id s'
    \<and> ids out - keys s = {next_id s ..< next_id s'}
    \<and> next_id s' = next_id s + int (card (ids out - keys s))
    \<and> (\<forall>prev \<in> set outs. \<forall>i \<in> ids prev. i < next_id s)
    \<and> (\<forall>i \<in> ids out. i \<in> keys s \<or> (\<forall>prev \<in> set outs. i \<notin> ids prev))
    \<and> distinct (map fst (table s'))
    \<and> (\<forall>i. i < next_id s \<and> i \<notin> keys s \<longrightarrow> (\<forall>later \<in> set (fst (run s gs)). i \<notin> ids later))"
proof -
  from run_facts [OF assms(1) new_tracker_inv] have inv: "tracker_inv s"
    and issued: "\<forall>prev \<in> set outs. \<forall>i \<in> ids prev. i < next_id s" by blast+
  from inv have dist: "distinct (map fst (table s))" and below: "\<forall>k \<in> keys s. k < next_id s"
    by (simp_all add: tracker_inv_def)
  from update_facts [OF assms(2)] dist below have U4: "next_id s \<le> next_id s'"
    and U5: "ids out \<subseteq> keys s \<union> {next_id s ..< next_id s'}"
    and U6: "{next_id s ..< next_id s'} \<subseteq> ids out"
    and U3: "distinct (map fst (table s'))" by blast+
  have fresh: "ids out - keys s = {next_id s ..< next_id s'}"
  proof
    show "ids out - keys s \<subseteq> {next_id s ..< next_id s'}" using U5 by auto
    show "{next_id s ..< next_id s'} \<subseteq> ids out - keys s" using U6 below by fastforce
  qed
  have count: "next_id s' = next_id s + int (card (ids out - keys s))"
    using U4 by (simp add: fresh)
  have never: "i \<in> keys s \<or> (\<forall>prev \<in> set outs. i \<notin> ids prev)" if "i \<in> ids out" for i
  proof (cases "i \<in> keys s")
    case True
    then show ?thesis by simp
  next
    case False
    with that fresh have "next_id s \<le> i" by auto
    with issued show ?thesis by fastforce
  qed
  obtain os s2 where r: "run s gs = (os, s2)" by (cases "run s gs")
  from run_facts [OF r inv]
  have retired: "\<forall>i. i < next_id s \<and> i \<notin> keys s \<longrightarrow> (\<forall>later \<in> set (fst (run s gs)). i \<notin> ids later)"
    using r by simp
  from U4 fresh count issued never U3 retired show ?thesis by blast
qed

theorem identity_counter_witness:
  "run (new_tracker 25) [[(10, 10, 20, 20)], []]
     = ([[(10, 10, 20, 20, 0)], []], \<lparr>table = [], next_id = 1, threshold = 25\<rparr>)
   \<and> update \<lparr>table = [], next_id = 1, threshold = 25\<rparr> [(10, 10, 20, 20)]
     = ([(10, 10, 20, 20, 1)],
        \<lparr>table = [(1, \<lparr>track_id = 1, centroid = (20, 20), lastBoundingBox = (10, 10, 20, 20)\<rparr>)],
         next_id = 2, threshold = 25\<rparr>)
   \<and> ids [(10, 10, 20, 20, 1)] - {} = {1 ..< (2::int)}
   \<and> (0::int) < 1 \<and> (0::int) \<notin> {}
   \<and> fst (run \<lparr>table = [], next_id = 1, threshold = 25\<rparr>
            [[(10, 10, 20, 20)], [(12, 11, 20, 20)]])
     = [[(10, 10, 20, 20, 1)], [(12, 11, 20, 20, 1)]]
   \<and> 0 \<notin> ids [(10, 10, 20, 20, 1)] \<and> 0 \<notin> ids [(12, 11, 20, 20, 1)]"
proof -
  have r: "run (new_tracker 25) [[(10, 10, 20, 20)], []]
     = ([[(10, 10, 20, 20, 0)], []], \<lparr>table = [], next_id = 1, threshold = 25\<rparr>)"
    by (simp add: tracker_eval)
  have u: "update \<lparr>table = [], next_id = 1, threshold = 25\<rparr> [(10, 10, 20, 20)]
     = ([(10, 10, 20, 20, 1)],
        \<lparr>table = [(1, \<lparr>track_id = 1, centroid = (20, 20), lastBoundingBox = (10, 10, 20, 20)\<rparr>)],
         next_id = 2, threshold = 25\<rparr>)"
    by (simp add: tracker_eval)
  from identity_counter [OF r u, of "[[(10, 10, 20, 20)], [(12, 11, 20, 20)]]"]
  have "ids [(10, 10, 20, 20, 1)] - {} = {1 ..< (2::int)}"
    and "\<forall>i. i < 1 \<and> i \<notin> {} \<longrightarrow>
          (\<forall>later \<in> set (fst (run \<lparr>table = [], next_id = 1, threshold = 25\<rparr>
                                [[(10, 10, 20, 20)], [(12, 11, 20, 20)]])). i \<notin> ids later)"
    by simp_all
  moreover have "fst (run \<lparr>table = [], next_id = 1, threshold = 25\<rparr>
            [[(10, 10, 20, 20)], [(12, 11, 20, 20)]])
     = [[(10, 10, 20, 20, 1)], [(12, 11, 20, 20, 1)]]"
    by (simp add: tracker_eval)
  ultimately show ?thesis using r u by simp
qed

text \<open>
  C3: a detection is matched to a track only when the Euclidean distance of the centroids
  is strictly below the threshold (25 by default).  In any table, a track exactly at
  distance \<open>threshold\<close> is not the match, and a detection whose distance to every track
  is at least the threshold is given the new id \<open>N\<close>.  A track at distance
  \<open>threshold - \<epsilon>\<close>, for any \<open>\<epsilon> > 0\<close>, makes the scan succeed, and when no track before
  it in scan order is within the threshold, the detection is given that track's id.
\<close>

theorem threshold_is_strict:
  "(find_match thr c tbl = Some i \<longrightarrow> (\<exists>t. (i, t) \<in> set tbl \<and> euclid c (centroid t) < thr))
   \<and> (distinct (map fst tbl1) \<and> (j1, u1) \<in> set tbl1 \<and> euclid c1 (centroid u1) = thr1
        \<longrightarrow> find_match thr1 c1 tbl1 \<noteq> Some j1)
   \<and> ((\<forall>e \<in> set (table s). threshold s \<le> euclid (centroid_of d) (centroid (snd e)))
        \<longrightarrow> fst (update s [d]) = [(case d of (x, y, w, h) \<Rightarrow> (x, y, w, h, next_id s))])
   \<and> ((j2, u2) \<in> set tbl2 \<and> 0 < \<epsilon>2 \<and> euclid c2 (centroid u2) = thr2 - \<epsilon>2
        \<longrightarrow> find_match thr2 c2 tbl2 \<noteq> None)
   \<and> (table s' = pre @ (j', u') # post
        \<and> (\<forall>e \<in> set pre. threshold s' \<le> euclid (centroid_of d') (centroid (snd e)))
        \<and> 0 < \<epsilon> \<and> euclid (centroid_of d') (centroid u') = threshold s' - \<epsilon>
        \<longrightarrow> fst (update s' [d']) = [(case d' of (x, y, w, h) \<Rightarrow> (x, y, w, h, j'))])
   \<and> threshold EuclideanDistTracker = 25"
proof -
  have a: "find_match thr c tbl = Some i \<longrightarrow> (\<exists>t. (i, t) \<in> set tbl \<and> euclid c (centroid t) < thr)"
    using find_match_Some by blast
  have b: "find_match thr1 c1 tbl1 \<noteq> Some j1"
    if "distinct (map fst tbl1)" "(j1, u1) \<in> set tbl1" "euclid c1 (centroid u1) = thr1"
  proof
    assume "find_match thr1 c1 tbl1 = Some j1"
    from find_match_Some [OF this] obtain t where
      t: "(j1, t) \<in> set tbl1" "euclid c1 (centroid t) < thr1" by blast
    have "map_of tbl1 j1 = Some u1"
      by (rule map_of_eq_Some_iff [OF that(1), THEN iffD2]) (rule that(2))
    moreover have "map_of tbl1 j1 = Some t"
      by (rule map_of_eq_Some_iff [OF that(1), THEN iffD2]) (rule t(1))
    ultimately have "t = u1" by simp
    with t(2) that(3) show False by simp
  qed
  have n: "fst (update s [d]) = [(case d of (x, y, w, h) \<Rightarrow> (x, y, w, h, next_id s))]"
    if "\<forall>e \<in> set (table s). threshold s \<le> euclid (centroid_of d) (centroid (snd e))"
  proof -
    from that have "find_match (threshold s) (centroid_of d) (table s) = None"
      by (auto simp: find_match_None)
    then have "fst (process s d) = (case d of (x, y, w, h) \<Rightarrow> (x, y, w, h, next_id s))"
      by (simp add: fst_process)
    then show ?thesis by (simp add: update_single)
  qed
  have e: "find_match thr2 c2 tbl2 \<noteq> None"
    if "(j2, u2) \<in> set tbl2" "0 < \<epsilon>2" "euclid c2 (centroid u2) = thr2 - \<epsilon>2"
  proof
    assume "find_match thr2 c2 tbl2 = None"
    with that(1) have "\<not> euclid c2 (centroid u2) < thr2"
      unfolding find_match_None by force
    with that(2,3) show False by simp
  qed
  have m: "fst (update s' [d']) = [(case d' of (x, y, w, h) \<Rightarrow> (x, y, w, h, j'))]"
    if t: "table s' = pre @ (j', u') # post"
      and p: "\<forall>e \<in> set pre. threshold s' \<le> euclid (centroid_of d') (centroid (snd e))"
      and "0 < \<epsilon>" "euclid (centroid_of d') (centroid u') = threshold s' - \<epsilon>"
  proof -
    from p have "find_match (threshold s') (centroid_of d') pre = None"
      by (auto simp: find_match_None)
    with that(3,4) have "find_match (threshold s') (centroid_of d') (table s') = Some j'"
      by (simp add: t find_match_append)
    then have "fst (process s' d') = (case d' of (x, y, w, h) \<Rightarrow> (x, y, w, h, j'))"
      by (simp add: fst_process)
    then show ?thesis by (simp add: update_single)
  qed
  have "threshold EuclideanDistTracker = 25"
    by (simp add: EuclideanDistTracker_def new_tracker_def)
  with a b n e m show ?thesis by blast
qed

theorem threshold_is_strict_witness:
  "find_match 25 (113, 114)
     [(0, \<lparr>track_id = 0, centroid = (20, 20), lastBoundingBox = (10, 10, 20, 20)\<rparr>),
      (1, \<lparr>track_id = 1, centroid = (110, 110), lastBoundingBox = (100, 100, 20, 20)\<rparr>)] = Some 1
   \<and> euclid (113, 114) (110, 110) < 25
   \<and> euclid (centroid_of (115, 120, 20, 20)) (110, 110) = 25
   \<and> find_match 25 (centroid_of (115, 120, 20, 20))
     [(0, \<lparr>track_id = 0, centroid = (20, 20), lastBoundingBox = (10, 10, 20, 20)\<rparr>),
      (1, \<lparr>track_id = 1, centroid = (110, 110), lastBoundingBox = (100, 100, 20, 20)\<rparr>)] \<noteq> Some 1
   \<and> fst (update
        \<lparr>table =
           [(0, \<lparr>track_id = 0, centroid = (20, 20), lastBoundingBox = (10, 10, 20, 20)\<rparr>),
            (1, \<lparr>track_id = 1, centroid = (110, 110), lastBoundingBox = (100, 100, 20, 20)\<rparr>)],
         next_id = 2, threshold = 25\<rparr> [(115, 120, 20, 20)])
     = [(115, 120, 20, 20, 2)]
   \<and> (0::real) < 20 \<and> euclid (centroid_of (103, 104, 20, 20)) (110, 110) = 25 - 20
   \<and> fst (update
        \<lparr>table =
           [(0, \<lparr>track_id = 0, centroid = (20, 20), lastBoundingBox = (10, 10, 20, 20)\<rparr>),
            (1, \<lparr>track_id = 1, centroid = (110, 110), lastBoundingBox = (100, 100, 20, 20)\<rparr>)],
         next_id = 2, threshold = 25\<rparr> [(103, 104, 20, 20)])
     = [(103, 104, 20, 20, 1)]"
proof -
  let ?t0 = "\<lparr>track_id = 0, centroid = (20, 20), lastBoundingBox = (10, 10, 20, 20)\<rparr>"
  let ?t1 = "\<lparr>track_id = 1, centroid = (110, 110), lastBoundingBox = (100, 100, 20, 20)\<rparr>"
  let ?s = "\<lparr>table = [(0, ?t0), (1, ?t1)], next_id = 2, threshold = 25\<rparr>"
  have m: "find_match 25 (113, 114) [(0, ?t0), (1, ?t1)] = Some 1"
    by (simp add: euclid_less_iff)
  have e1: "euclid (centroid_of (115, 120, 20, 20)) (centroid ?t1) = 25"
    by (simp add: euclid_eq_iff centroid_of_def)
  have far: "\<forall>e \<in> set (table ?s).
      threshold ?s \<le> euclid (centroid_of (115, 120, 20, 20)) (centroid (snd e))"
    by (simp add: euclid_le_iff centroid_of_def)
  have e2: "euclid (centroid_of (103, 104, 20, 20)) (centroid ?t1) = threshold ?s - 20"
    by (simp add: euclid_eq_iff centroid_of_def)
  have pre: "\<forall>e \<in> set [(0, ?t0)].
      threshold ?s \<le> euclid (centroid_of (103, 104, 20, 20)) (centroid (snd e))"
    by (simp add: euclid_le_iff centroid_of_def)
  have tb: "table ?s = [(0, ?t0)] @ (1, ?t1) # []" by simp
  have d: "distinct (map fst [(0::int, ?t0), (1, ?t1)])" by simp
  from threshold_is_strict [of 25 "(113, 114)" "[(0, ?t0), (1, ?t1)]" 1
      "[(0, ?t0), (1, ?t1)]" 1 ?t1 "centroid_of (115, 120, 20, 20)" 25
      ?s "(115, 120, 20, 20)"
      1 ?t1 "[(0, ?t0), (1, ?t1)]" 20 "centroid_of (103, 104, 20, 20)" 25
      ?s "[(0, ?t0)]" 1 ?t1 "[]" "(103, 104, 20, 20)" 20]
    m e1 far e2 pre tb d
  show ?thesis by simp
qed




text \<open>
  C5: the sequence returned by \<open>update\<close> has the length and the order of the input, and
  its k-th element is the k-th input box \<open>(x, y, w, h)\<close> extended with the id assigned to
  that detection: the id of the first track within the threshold in the table as the
  detections before it left it, or else the value of the counter at that moment.
\<close>

theorem update_preserves_boxes:
  "map box_of (fst (update s ds)) = ds
   \<and> length (fst (update s ds)) = length ds
   \<and> (\<forall>k < length ds.
        fst (update s ds) ! k =
          (case ds ! k of (x, y, w, h) \<Rightarrow>
             (x, y, w, h,
              case find_match (threshold (snd (process_all s (take k ds))))
                     (centroid_of (ds ! k)) (table (snd (process_all s (take k ds)))) of
                Some i \<Rightarrow> i
              | None \<Rightarrow> next_id (snd (process_all s (take k ds))))))"
proof -
  obtain out s1 where p: "process_all s ds = (out, s1)" by (cases "process_all s ds")
  have u: "fst (update s ds) = out" by (simp add: update_def p)
  from process_all_boxes [of s ds] p have m: "map box_of out = ds" by simp
  then have l: "length out = length ds" by (metis length_map)
  have "out ! k = fst (process (snd (process_all s (take k ds))) (ds ! k))"
    if "k < length ds" for k
    using process_all_nth [OF that, of s] p by simp
  with m l u show ?thesis by (simp add: fst_process)
qed

theorem update_preserves_boxes_witness:
  "map box_of (fst (update EuclideanDistTracker [(10, 10, 20, 20), (100, 100, 20, 20)]))
     = [(10, 10, 20, 20), (100, 100, 20, 20)]
   \<and> (1::nat) < length [(10, 10, 20, 20), (100, 100, 20, 20) :: detection]
   \<and> find_match 25 (110, 110)
        [(0, \<lparr>track_id = 0, centroid = (20, 20), lastBoundingBox = (10, 10, 20, 20)\<rparr>)] = None
   \<and> fst (update EuclideanDistTracker [(10, 10, 20, 20), (100, 100, 20, 20)]) ! 0
     = (10, 10, 20, 20, 0)
   \<and> fst (update EuclideanDistTracker [(10, 10, 20, 20), (100, 100, 20, 20)]) ! 1
     = (100, 100, 20, 20, 1)"
  using update_preserves_boxes [of EuclideanDistTracker "[(10, 10, 20, 20), (100, 100, 20, 20)]"]
  by (simp add: tracker_eval)

section \<open>Properties of the script\<close>

lemma contour_loop_eq:
  "contour_loop area rect cnts acc = acc @ map rect (filter (\<lambda>cnt. area cnt > 100) cnts)"
  by (induction cnts arbitrary: acc) auto

lemma process_frame_fields:
  "message (process_frame cv cfg st frame) = message st
   \<and> cap_open (process_frame cv cfg st frame) = cap_open st
   \<and> tracked_open (process_frame cv cfg st frame) = tracked_open st
   \<and> roi_open (process_frame cv cfg st frame) = roi_open st
   \<and> mask_open (process_frame cv cfg st frame) = mask_open st
   \<and> video_path (process_frame cv cfg st frame) = video_path st
   \<and> tracked_output_file (process_frame cv cfg st frame) = tracked_output_file st
   \<and> roi_output_file (process_frame cv cfg st frame) = roi_output_file st
   \<and> mask_output_file (process_frame cv cfg st frame) = mask_output_file st
   \<and> processed_frames (process_frame cv cfg st frame) = processed_frames st + 1"
  by (simp add: process_frame_def Let_def split: prod.split)

lemma frames_loop_message:
  "message (fst (frames_loop cv cfg fc st fs)) = message st"
proof (induction fs arbitrary: st)
  case Nil
  show ?case by simp
next
  case (Cons frame rest)
  show ?case
  proof (cases "update_progress (processed_frames (process_frame cv cfg st frame)) fc")
    case (Some e)
    then show ?thesis by (simp add: Let_def process_frame_fields)
  next
    case None
    then show ?thesis
      using Cons.IH [of "process_frame cv cfg st frame"]
      by (simp add: Let_def process_frame_fields)
  qed
qed

lemma main_message_valid:
  assumes "cap_isOpened cap"
    and "\<not> (roi_y_end cfg \<le> roi_y_start cfg \<or> roi_x_end cfg \<le> roi_x_start cfg)"
    and "\<not> (roi_y_end cfg > height cap \<or> roi_x_end cfg > width cap)"
  shows "\<not> InvalidRegion (message (main cv seg0 cfg cap env))"
proof -
  obtain st2 e where l: "frames_loop cv cfg (frame_count cap)
      (create_writers env (initial seg0 cap)) (cap_frames cap) = (st2, e)"
    by (cases "frames_loop cv cfg (frame_count cap)
      (create_writers env (initial seg0 cap)) (cap_frames cap)")
  show ?thesis using assms l
    by (cases e)
       (simp_all add: main_def Let_def InvalidRegion_def unlink_outputs_def release_writers_def)
qed

lemma agrees_outside_refl: "agrees_outside cfg a a"
  by (simp add: agrees_outside_def)

lemma agrees_outside_trans:
  "agrees_outside cfg a b \<Longrightarrow> agrees_outside cfg b c \<Longrightarrow> agrees_outside cfg a c"
  unfolding agrees_outside_def by auto

lemma set_pixel_agrees:
  assumes "0 \<le> roi_y_start cfg" and "0 \<le> roi_x_start cfg"
  shows "agrees_outside cfg (set_pixel cfg colour frame p) frame"
proof -
  obtain px py where p: "p = (px, py)" by (cases p)
  show ?thesis
  proof (cases "0 \<le> px \<and> px < roi_x_end cfg - roi_x_start cfg
           \<and> 0 \<le> py \<and> py < roi_y_end cfg - roi_y_start cfg
           \<and> nat (roi_y_start cfg + py) < length frame")
    case False
    then have "set_pixel cfg colour frame p = frame"
      by (auto simp: set_pixel_def p Let_def)
    then show ?thesis by (simp add: agrees_outside_refl)
  next
    case True
    define r0 where "r0 = nat (roi_y_start cfg + py)"
    define c0 where "c0 = nat (roi_x_start cfg + px)"
    from True have eq: "set_pixel cfg colour frame p = frame[r0 := (frame ! r0)[c0 := colour]]"
      by (simp add: set_pixel_def p Let_def r0_def c0_def)
    from True assms have inside: "in_roi cfg r0 c0"
      by (simp add: in_roi_def r0_def c0_def)
    have "length ((frame[r0 := (frame ! r0)[c0 := colour]]) ! r) = length (frame ! r)
          \<and> (\<forall>c < length (frame ! r). \<not> in_roi cfg r c \<longrightarrow>
                (frame[r0 := (frame ! r0)[c0 := colour]]) ! r ! c = frame ! r ! c)"
      if r: "r < length frame" for r
    proof (cases "r = r0")
      case True
      have "(frame ! r0)[c0 := colour] ! c = frame ! r0 ! c" if "\<not> in_roi cfg r0 c" for c
      proof -
        from that inside have "c \<noteq> c0" by auto
        then show ?thesis by simp
      qed
      with True r show ?thesis by simp
    next
      case False
      then show ?thesis by simp
    qed
    then show ?thesis by (simp add: agrees_outside_def eq)
  qed
qed

lemma paint_agrees:
  assumes "0 \<le> roi_y_start cfg" and "0 \<le> roi_x_start cfg"
  shows "agrees_outside cfg (paint cfg colour pts frame) frame"
  unfolding paint_def
proof (induction pts arbitrary: frame)
  case Nil
  show ?case by (simp add: agrees_outside_refl)
next
  case (Cons p pts)
  have "agrees_outside cfg (foldl (set_pixel cfg colour) (set_pixel cfg colour frame p) pts)
          (set_pixel cfg colour frame p)" by (rule Cons.IH)
  then have "agrees_outside cfg (foldl (set_pixel cfg colour) (set_pixel cfg colour frame p) pts)
          frame"
    by (rule agrees_outside_trans) (rule set_pixel_agrees [OF assms])
  then show ?case by simp
qed

lemma draw_box_agrees:
  assumes "0 \<le> roi_y_start cfg" and "0 \<le> roi_x_start cfg"
  shows "agrees_outside cfg (draw_box cv cfg frame b) frame"
proof -
  obtain x y w h i where b: "b = (x, y, w, h, i)" by (cases b)
  have "agrees_outside cfg
          (paint cfg (0, 255, 0) (rectangle_pixels cv (x, y) (x + w, y + h))
             (paint cfg (255, 0, 0) (putText_pixels cv i (x, y - 15)) frame))
          frame"
    by (rule agrees_outside_trans) (rule paint_agrees [OF assms])+
  then show ?thesis by (simp add: draw_box_def b)
qed

lemma annotate_agrees:
  assumes "0 \<le> roi_y_start cfg" and "0 \<le> roi_x_start cfg"
  shows "agrees_outside cfg (annotate cv cfg boxes_ids frame) frame"
  unfolding annotate_def
proof (induction boxes_ids arbitrary: frame)
  case Nil
  show ?case by (simp add: agrees_outside_refl)
next
  case (Cons b bs)
  have "agrees_outside cfg (foldl (draw_box cv cfg) (draw_box cv cfg frame b) bs)
          (draw_box cv cfg frame b)" by (rule Cons.IH)
  then have "agrees_outside cfg (foldl (draw_box cv cfg) (draw_box cv cfg frame b) bs) frame"
    by (rule agrees_outside_trans) (rule draw_box_agrees [OF assms])
  then show ?case by simp
qed

lemma py_slice_update:
  assumes "nat lo \<le> k"
  shows "py_slice lo hi (xs[k := v]) = (py_slice lo hi xs)[k - nat lo := v]"
  unfolding py_slice_def by (simp add: drop_update_swap [OF assms] take_update_swap)

lemma length_py_slice:
  "nat hi \<le> length xs \<Longrightarrow> length (py_slice lo hi xs) = nat hi - nat lo"
  by (simp add: py_slice_def)

lemma nth_py_slice:
  "nat hi \<le> length xs \<Longrightarrow> k < nat hi - nat lo \<Longrightarrow> py_slice lo hi xs ! k = xs ! (nat lo + k)"
  by (simp add: py_slice_def)

lemma view_set_pixel:
  assumes y0: "0 \<le> roi_y_start cfg" and x0: "0 \<le> roi_x_start cfg"
    and rows: "roi_y_end cfg \<le> int (length frame)"
    and cols: "\<forall>r < length frame. roi_x_end cfg \<le> int (length (frame ! r))"
  shows "roi_view cfg (set_pixel cfg colour frame p)
           = set_pixel_copy colour (roi_view cfg frame) p"
proof -
  obtain px py where p: "p = (px, py)" by (cases p)
  let ?Y0 = "nat (roi_y_start cfg)" and ?Y1 = "nat (roi_y_end cfg)"
  let ?X0 = "nat (roi_x_start cfg)" and ?X1 = "nat (roi_x_end cfg)"
  let ?R = "roi_view cfg frame"
  from rows have Y1: "?Y1 \<le> length frame" by simp
  have lenR: "length ?R = ?Y1 - ?Y0"
    by (simp add: roi_view_def length_py_slice [OF Y1])
  have rowR: "?R ! k = py_slice (roi_x_start cfg) (roi_x_end cfg) (frame ! (?Y0 + k))"
    if "k < ?Y1 - ?Y0" for k
    using that by (simp add: roi_view_def length_py_slice [OF Y1] nth_py_slice [OF Y1])
  have lenrow: "length (?R ! k) = ?X1 - ?X0" if "k < ?Y1 - ?Y0" for k
  proof -
    from that Y1 have "?Y0 + k < length frame" by simp
    with cols have "roi_x_end cfg \<le> int (length (frame ! (?Y0 + k)))" by blast
    then have "?X1 \<le> length (frame ! (?Y0 + k))" by simp
    then show ?thesis by (simp add: rowR [OF that] length_py_slice)
  qed
  show ?thesis
  proof (cases "0 \<le> px \<and> px < roi_x_end cfg - roi_x_start cfg
           \<and> 0 \<le> py \<and> py < roi_y_end cfg - roi_y_start cfg")
    case True
    let ?r = "nat (roi_y_start cfg + py)" and ?c = "nat (roi_x_start cfg + px)"
    from True y0 x0 have r: "?r = ?Y0 + nat py" and c: "?c = ?X0 + nat px"
      by (simp_all add: nat_add_distrib)
    from True y0 have k: "nat py < ?Y1 - ?Y0" by arith
    from True x0 have kx: "nat px < ?X1 - ?X0" by arith
    from k Y1 have "?Y0 + nat py < length frame" by arith
    with r have rlt: "?r < length frame" by simp
    have "roi_view cfg (set_pixel cfg colour frame p)
        = roi_view cfg (frame[?r := (frame ! ?r)[?c := colour]])"
      using True rlt by (simp add: set_pixel_def p Let_def)
    also have "\<dots> = ?R[nat py := (?R ! nat py)[nat px := colour]]"
      by (simp add: roi_view_def py_slice_update r c map_update rowR [OF k, unfolded roi_view_def]
          length_py_slice [OF Y1] nth_py_slice [OF Y1] k)
    also have "\<dots> = set_pixel_copy colour ?R p"
      using True k kx by (simp add: set_pixel_copy_def p lenR lenrow)
    finally show ?thesis .
  next
    case False
    then have a: "set_pixel cfg colour frame p = frame"
      by (auto simp: set_pixel_def p)
    have "set_pixel_copy colour ?R p = ?R"
    proof (cases "0 \<le> px \<and> 0 \<le> py \<and> nat py < length ?R")
      case inR: True
      then have k: "nat py < ?Y1 - ?Y0" by (simp add: lenR)
      with inR y0 have "py < roi_y_end cfg - roi_y_start cfg" by arith
      with False inR have "roi_x_end cfg - roi_x_start cfg \<le> px" by simp
      with x0 have "?X1 - ?X0 \<le> nat px" by arith
      then show ?thesis by (simp add: set_pixel_copy_def p lenrow [OF k])
    next
      case False
      then show ?thesis by (auto simp: set_pixel_copy_def p)
    qed
    with a show ?thesis by simp
  qed
qed

lemma agrees_outside_covers:
  assumes "agrees_outside cfg a b"
    and "roi_y_end cfg \<le> int (length b)"
    and "\<forall>r < length b. roi_x_end cfg \<le> int (length (b ! r))"
  shows "roi_y_end cfg \<le> int (length a) \<and> (\<forall>r < length a. roi_x_end cfg \<le> int (length (a ! r)))"
  using assms unfolding agrees_outside_def by auto

lemma view_paint:
  assumes y0: "0 \<le> roi_y_start cfg" and x0: "0 \<le> roi_x_start cfg"
  shows "roi_y_end cfg \<le> int (length frame) \<Longrightarrow>
     \<forall>r < length frame. roi_x_end cfg \<le> int (length (frame ! r)) \<Longrightarrow>
     roi_view cfg (paint cfg colour pts frame) = paint_copy colour pts (roi_view cfg frame)"
  unfolding paint_def paint_copy_def
proof (induction pts arbitrary: frame)
  case Nil
  show ?case by simp
next
  case (Cons p pts)
  from agrees_outside_covers [OF set_pixel_agrees [OF y0 x0] Cons.prems]
  have c: "roi_y_end cfg \<le> int (length (set_pixel cfg colour frame p))"
    "\<forall>r < length (set_pixel cfg colour frame p).
        roi_x_end cfg \<le> int (length (set_pixel cfg colour frame p ! r))"
    by blast+
  show ?case by (simp add: Cons.IH [OF c] view_set_pixel [OF y0 x0 Cons.prems])
qed

lemma view_draw_box:
  assumes y0: "0 \<le> roi_y_start cfg" and x0: "0 \<le> roi_x_start cfg"
    and rows: "roi_y_end cfg \<le> int (length frame)"
    and cols: "\<forall>r < length frame. roi_x_end cfg \<le> int (length (frame ! r))"
  shows "roi_view cfg (draw_box cv cfg frame b) = draw_box_copy cv (roi_view cfg frame) b"
proof -
  obtain x y w h i where b: "b = (x, y, w, h, i)" by (cases b)
  let ?f1 = "paint cfg (255, 0, 0) (putText_pixels cv i (x, y - 15)) frame"
  from agrees_outside_covers [OF paint_agrees [OF y0 x0] rows cols]
  have c: "roi_y_end cfg \<le> int (length ?f1)"
    "\<forall>r < length ?f1. roi_x_end cfg \<le> int (length (?f1 ! r))"
    by blast+
  show ?thesis
    by (simp add: draw_box_def draw_box_copy_def b view_paint [OF y0 x0 c]
        view_paint [OF y0 x0 rows cols])
qed

lemma view_annotate:
  assumes y0: "0 \<le> roi_y_start cfg" and x0: "0 \<le> roi_x_start cfg"
  shows "roi_y_end cfg \<le> int (length frame) \<Longrightarrow>
     \<forall>r < length frame. roi_x_end cfg \<le> int (length (frame ! r)) \<Longrightarrow>
     roi_view cfg (annotate cv cfg boxes_ids frame) = annotate_copy cv boxes_ids (roi_view cfg frame)"
  unfolding annotate_def annotate_copy_def
proof (induction boxes_ids arbitrary: frame)
  case Nil
  show ?case by simp
next
  case (Cons b bs)
  from agrees_outside_covers [OF draw_box_agrees [OF y0 x0] Cons.prems]
  have c: "roi_y_end cfg \<le> int (length (draw_box cv cfg frame b))"
    "\<forall>r < length (draw_box cv cfg frame b).
        roi_x_end cfg \<le> int (length (draw_box cv cfg frame b ! r))"
    by blast+
  show ?case by (simp add: Cons.IH [OF c] view_draw_box [OF y0 x0 Cons.prems])
qed

lemma has_shape_covers:
  assumes "has_shape cap frame" and "roi_y_end cfg \<le> height cap" and "roi_x_end cfg \<le> width cap"
  shows "roi_y_end cfg \<le> int (length frame)
     \<and> (\<forall>r < length frame. roi_x_end cfg \<le> int (length (frame ! r)))"
  using assms unfolding has_shape_def by (auto simp: all_set_conv_all_nth)

lemma process_frame_annotated:
  assumes y0: "0 \<le> roi_y_start cfg" and x0: "0 \<le> roi_x_start cfg"
    and rows: "roi_y_end cfg \<le> int (length frame)"
    and cols: "\<forall>r < length frame. roi_x_end cfg \<le> int (length (frame ! r))"
  shows "\<exists>frame1.
       tracked_out (process_frame cv cfg st frame) = tracked_out st @ [frame1]
     \<and> roi_out (process_frame cv cfg st frame) = roi_out st @ [roi_view cfg frame1]
     \<and> agrees_outside cfg frame1 frame
     \<and> roi_view cfg frame1
         = annotate_copy cv
             (hd (frame_boxes cv cfg (tracker st) (object_detector st) (frame # rest)))
             (roi_view cfg frame)
     \<and> frame_boxes cv cfg (tracker (process_frame cv cfg st frame))
           (object_detector (process_frame cv cfg st frame)) rest
         = tl (frame_boxes cv cfg (tracker st) (object_detector st) (frame # rest))"
proof -
  obtain raw seg1 where m: "mog2_apply cv (object_detector st) (roi_view cfg frame) = (raw, seg1)"
    by (cases "mog2_apply cv (object_detector st) (roi_view cfg frame)")
  obtain boxes_ids trk1 where
    u: "update (tracker st) (extract_detections cv (threshold_binary raw)) = (boxes_ids, trk1)"
    by (cases "update (tracker st) (extract_detections cv (threshold_binary raw))")
  let ?frame1 = "annotate cv cfg boxes_ids frame"
  have "tracked_out (process_frame cv cfg st frame) = tracked_out st @ [?frame1]"
    and "roi_out (process_frame cv cfg st frame) = roi_out st @ [roi_view cfg ?frame1]"
    and "tracker (process_frame cv cfg st frame) = trk1"
    and "object_detector (process_frame cv cfg st frame) = seg1"
    by (simp_all add: process_frame_def Let_def m u)
  moreover have "agrees_outside cfg ?frame1 frame" by (rule annotate_agrees [OF y0 x0])
  moreover have "roi_view cfg ?frame1 = annotate_copy cv boxes_ids (roi_view cfg frame)"
    by (rule view_annotate [OF y0 x0 rows cols])
  moreover have "frame_boxes cv cfg (tracker st) (object_detector st) (frame # rest)
      = boxes_ids # frame_boxes cv cfg trk1 seg1 rest"
    by (simp add: m u)
  ultimately show ?thesis by simp
qed

lemma frames_loop_annotated:
  assumes y0: "0 \<le> roi_y_start cfg" and x0: "0 \<le> roi_x_start cfg"
  shows "frames_loop cv cfg fc st fs = (st', e) \<Longrightarrow>
     \<forall>frame \<in> set fs. roi_y_end cfg \<le> int (length frame)
        \<and> (\<forall>r < length frame. roi_x_end cfg \<le> int (length (frame ! r))) \<Longrightarrow>
     \<exists>written. tracked_out st' = tracked_out st @ written
     \<and> roi_out st' = roi_out st @ map (roi_view cfg) written
     \<and> length written \<le> length fs
     \<and> (e = None \<longrightarrow> length written = length fs)
     \<and> (\<forall>k < length written.
           agrees_outside cfg (written ! k) (fs ! k)
           \<and> roi_view cfg (written ! k)
               = annotate_copy cv (frame_boxes cv cfg (tracker st) (object_detector st) fs ! k)
                   (roi_view cfg (fs ! k)))"
proof (induction fs arbitrary: st)
  case Nil
  then show ?case by simp
next
  case (Cons frame rest)
  let ?st1 = "process_frame cv cfg st frame"
  let ?B = "frame_boxes cv cfg (tracker st) (object_detector st) (frame # rest)"
  from Cons.prems(2) have rows: "roi_y_end cfg \<le> int (length frame)"
    and cols: "\<forall>r < length frame. roi_x_end cfg \<le> int (length (frame ! r))"
    and rest: "\<forall>frame \<in> set rest. roi_y_end cfg \<le> int (length frame)
        \<and> (\<forall>r < length frame. roi_x_end cfg \<le> int (length (frame ! r)))"
    by simp_all
  from process_frame_annotated [OF y0 x0 rows cols, of cv st rest] obtain frame1 where
    f: "tracked_out ?st1 = tracked_out st @ [frame1]"
       "roi_out ?st1 = roi_out st @ [roi_view cfg frame1]"
       "agrees_outside cfg frame1 frame"
       "roi_view cfg frame1 = annotate_copy cv (hd ?B) (roi_view cfg frame)"
       "frame_boxes cv cfg (tracker ?st1) (object_detector ?st1) rest = tl ?B"
    by blast
  have B: "?B \<noteq> []" by (simp split: prod.split)
  show ?case
  proof (cases "update_progress (processed_frames ?st1) fc")
    case (Some ex)
    with Cons.prems(1) have "st' = ?st1" and "e = Some ex" by (simp_all add: Let_def)
    with f B have "tracked_out st' = tracked_out st @ [frame1]
       \<and> roi_out st' = roi_out st @ map (roi_view cfg) [frame1]
       \<and> length [frame1] \<le> length (frame # rest)
       \<and> (e = None \<longrightarrow> length [frame1] = length (frame # rest))
       \<and> (\<forall>k < length [frame1].
             agrees_outside cfg ([frame1] ! k) ((frame # rest) ! k)
             \<and> roi_view cfg ([frame1] ! k)
                 = annotate_copy cv (?B ! k) (roi_view cfg ((frame # rest) ! k)))"
      by (simp add: hd_conv_nth)
    then show ?thesis by blast
  next
    case None
    with Cons.prems(1) have "frames_loop cv cfg fc ?st1 rest = (st', e)" by (simp add: Let_def)
    from Cons.IH [OF this rest] f(5) obtain written where
      w: "tracked_out st' = tracked_out ?st1 @ written"
         "roi_out st' = roi_out ?st1 @ map (roi_view cfg) written"
         "length written \<le> length rest"
         "e = None \<longrightarrow> length written = length rest"
         "\<forall>k < length written.
             agrees_outside cfg (written ! k) (rest ! k)
             \<and> roi_view cfg (written ! k)
                 = annotate_copy cv (tl ?B ! k) (roi_view cfg (rest ! k))"
      by auto
    have "agrees_outside cfg ((frame1 # written) ! k) ((frame # rest) ! k)
          \<and> roi_view cfg ((frame1 # written) ! k)
              = annotate_copy cv (?B ! k) (roi_view cfg ((frame # rest) ! k))"
      if "k < length (frame1 # written)" for k
    proof (cases k)
      case 0
      with f(3,4) B show ?thesis by (simp add: hd_conv_nth)
    next
      case (Suc n)
      with that have n: "n < length written" by simp
      from B have "?B ! Suc n = tl ?B ! n" by (cases ?B) simp_all
      with w(5) n Suc show ?thesis by simp
    qed
    with f w have "tracked_out st' = tracked_out st @ (frame1 # written)
       \<and> roi_out st' = roi_out st @ map (roi_view cfg) (frame1 # written)
       \<and> length (frame1 # written) \<le> length (frame # rest)
       \<and> (e = None \<longrightarrow> length (frame1 # written) = length (frame # rest))
       \<and> (\<forall>k < length (frame1 # written).
             agrees_outside cfg ((frame1 # written) ! k) ((frame # rest) ! k)
             \<and> roi_view cfg ((frame1 # written) ! k)
                 = annotate_copy cv (?B ! k) (roi_view cfg ((frame # rest) ! k)))"
      by simp
    then show ?thesis by blast
  qed
qed

lemma main_loop:
  "(tracked_out (main cv seg0 cfg cap env) = [] \<and> roi_out (main cv seg0 cfg cap env) = []
      \<and> message (main cv seg0 cfg cap env) \<noteq> ProcessingComplete)
   \<or> (roi_y_end cfg \<le> height cap \<and> roi_x_end cfg \<le> width cap
      \<and> (\<exists>st2 e. frames_loop cv cfg (frame_count cap) (create_writers env (initial seg0 cap))
                   (cap_frames cap) = (st2, e)
         \<and> tracked_out (main cv seg0 cfg cap env) = tracked_out st2
         \<and> roi_out (main cv seg0 cfg cap env) = roi_out st2
         \<and> (message (main cv seg0 cfg cap env) = ProcessingComplete \<longrightarrow> e = None)))"
proof -
  obtain st2 e where l: "frames_loop cv cfg (frame_count cap)
      (create_writers env (initial seg0 cap)) (cap_frames cap) = (st2, e)"
    by (cases "frames_loop cv cfg (frame_count cap)
      (create_writers env (initial seg0 cap)) (cap_frames cap)")
  have i: "tracked_out (initial seg0 cap) = []" "roi_out (initial seg0 cap) = []"
    by (simp_all add: initial_def)
  have c: "tracked_out (create_writers env (initial seg0 cap)) = []"
    "roi_out (create_writers env (initial seg0 cap)) = []"
    by (simp_all add: initial_def create_writers_def)
  show ?thesis
    by (cases e)
       (auto simp add: main_def Let_def l i c unlink_outputs_def release_writers_def)
qed

lemmas script_eval =
  main_def Let_def example_cv_def example_cap_def example_roi_def writers_ok_def black_frame_def
  initial_def create_writers_def release_writers_def unlink_outputs_def
  process_frame_def roi_view_def py_slice_def threshold_binary_def extract_detections_def
  annotate_def draw_box_def paint_def set_pixel_def progress_def update_progress_def
  progress_bar_progress_def

lemma example_run:
  "tracked_out (main example_cv () example_roi (example_cap 1 [black_frame]) writers_ok)
     = [black_frame[0 := (black_frame ! 0)[0 := (0, 255, 0)]]]
   \<and> message (main example_cv () example_roi (example_cap 1 [black_frame]) writers_ok)
     = ProcessingComplete"
  by (simp add: script_eval tracker_eval)

lemmas copy_eval =
  annotate_copy_def draw_box_copy_def paint_copy_def set_pixel_copy_def
  wide_frame_def inner_roi_def wide_cap_def has_shape_def

lemma inner_run:
  "tracked_out (main example_cv () inner_roi (wide_cap [wide_frame]) writers_ok)
     = [wide_frame[1 := (wide_frame ! 1)[2 := (0, 255, 0)]]]
   \<and> message (main example_cv () inner_roi (wide_cap [wide_frame]) writers_ok)
     = ProcessingComplete
   \<and> frame_boxes example_cv inner_roi EuclideanDistTracker () [wide_frame]
     = [[(0, 0, 12, 12, 0)]]
   \<and> annotate_copy example_cv [(0, 0, 12, 12, 0)] (roi_view inner_roi wide_frame)
     = (replicate 12 (replicate 12 (0, 0, 0)))[0 := (replicate 12 (0, 0, 0))[0 := (0, 255, 0)]]"
  by (simp add: script_eval copy_eval tracker_eval)

section \<open>The claims about the script\<close>

text \<open>
  C6: the Detection Extractor returns one detection per contour of area strictly above
  100, in the order of the contours, each the bounding rectangle of its contour; a
  contour of area at most 100 gives none.
\<close>

theorem detections_are_large_contours:
  "extract_detections cv binary
     = map (boundingRect cv) (filter (\<lambda>cnt. contourArea cv cnt > 100) (findContours cv binary))"
  by (simp add: extract_detections_def contour_loop_eq)

text \<open>
  C7: the ROI bounds are checked once, before the writers are created and before any frame
  is read.  For an opened capture and slider values that are not negative, the run ends
  with an \<open>InvalidRegion\<close> message exactly when \<open>yEnd \<le> yStart\<close>, \<open>xEnd \<le> xStart\<close> or
  the rectangle exceeds the frame; then no frame is processed, nothing is written to any
  writer and no output file is created.  The frame loop never changes the message, so no
  frame can raise the error later.
\<close>

theorem roi_validation:
  assumes "cap_isOpened cap" and "0 \<le> roi_y_start cfg" and "0 \<le> roi_x_start cfg"
  shows "(InvalidRegion (message (main cv seg0 cfg cap env)) \<longleftrightarrow> invalid_region_spec cfg cap)
    \<and> (invalid_region_spec cfg cap \<longrightarrow>
          processed_frames (main cv seg0 cfg cap env) = 0
          \<and> tracked_out (main cv seg0 cfg cap env) = []
          \<and> roi_out (main cv seg0 cfg cap env) = []
          \<and> mask_out (main cv seg0 cfg cap env) = []
          \<and> \<not> tracked_output_file (main cv seg0 cfg cap env)
          \<and> \<not> roi_output_file (main cv seg0 cfg cap env)
          \<and> \<not> mask_output_file (main cv seg0 cfg cap env))
    \<and> message (fst (frames_loop cv cfg fc st fs)) = message st"
proof -
  have spec: "invalid_region_spec cfg cap \<longleftrightarrow>
      (roi_y_end cfg \<le> roi_y_start cfg \<or> roi_x_end cfg \<le> roi_x_start cfg)
      \<or> (roi_y_end cfg > height cap \<or> roi_x_end cfg > width cap)"
    using assms(2,3) by (auto simp: invalid_region_spec_def exceeds_frame_def)
  have a: "InvalidRegion (message (main cv seg0 cfg cap env))" if "invalid_region_spec cfg cap"
    using that assms(1) unfolding spec
    by (auto simp: main_def Let_def InvalidRegion_def)
  have b: "\<not> InvalidRegion (message (main cv seg0 cfg cap env))"
    if "\<not> invalid_region_spec cfg cap"
  proof -
    from that have "\<not> (roi_y_end cfg \<le> roi_y_start cfg \<or> roi_x_end cfg \<le> roi_x_start cfg)"
      and "\<not> (roi_y_end cfg > height cap \<or> roi_x_end cfg > width cap)"
      unfolding spec by simp_all
    then show ?thesis by (rule main_message_valid [OF assms(1)])
  qed
  have c: "processed_frames (main cv seg0 cfg cap env) = 0
          \<and> tracked_out (main cv seg0 cfg cap env) = []
          \<and> roi_out (main cv seg0 cfg cap env) = []
          \<and> mask_out (main cv seg0 cfg cap env) = []
          \<and> \<not> tracked_output_file (main cv seg0 cfg cap env)
          \<and> \<not> roi_output_file (main cv seg0 cfg cap env)
          \<and> \<not> mask_output_file (main cv seg0 cfg cap env)" if "invalid_region_spec cfg cap"
    using that assms(1) unfolding spec
    by (auto simp: main_def Let_def initial_def)
  from a b c frames_loop_message show ?thesis by blast
qed

theorem roi_validation_witness:
  "cap_isOpened (example_cap 1 [black_frame])
   \<and> 0 \<le> roi_y_start (example_roi\<lparr>roi_y_end := 13\<rparr>)
   \<and> 0 \<le> roi_x_start (example_roi\<lparr>roi_y_end := 13\<rparr>)
   \<and> invalid_region_spec (example_roi\<lparr>roi_y_end := 13\<rparr>) (example_cap 1 [black_frame])
   \<and> message (main example_cv () (example_roi\<lparr>roi_y_end := 13\<rparr>)
        (example_cap 1 [black_frame]) writers_ok) = ROIExceedsDimensions
   \<and> processed_frames (main example_cv () (example_roi\<lparr>roi_y_end := 13\<rparr>)
        (example_cap 1 [black_frame]) writers_ok) = 0
   \<and> tracked_out (main example_cv () (example_roi\<lparr>roi_y_end := 13\<rparr>)
        (example_cap 1 [black_frame]) writers_ok) = []"
proof -
  let ?cfg = "example_roi\<lparr>roi_y_end := 13\<rparr>"
  let ?cap = "example_cap 1 [black_frame]"
  have h: "cap_isOpened ?cap" "0 \<le> roi_y_start ?cfg" "0 \<le> roi_x_start ?cfg"
    by (simp_all add: example_cap_def example_roi_def)
  have i: "invalid_region_spec ?cfg ?cap"
    by (simp add: invalid_region_spec_def exceeds_frame_def example_cap_def example_roi_def)
  have m: "message (main example_cv () ?cfg ?cap writers_ok) = ROIExceedsDimensions"
    by (simp add: main_def Let_def example_cap_def example_roi_def)
  from roi_validation [OF h, of example_cv "()" writers_ok] h i m show ?thesis by simp
qed

text \<open>
  C8 fails on the script: when the third writer cannot be opened, the run stops before
  any frame is processed, but the two writers that did open are not released and the
  three output files stay on disk; only the capture is released and only the upload
  is unlinked.  The handler of exceptions and the end of a normal run do release the
  writers and unlink the files.
\<close>

theorem writers_not_released_on_init_failure:
  "message (main example_cv () example_roi (example_cap 1 [black_frame])
       (writers_ok\<lparr>mask_isOpened := False\<rparr>)) = CouldNotInitializeWriters
   \<and> processed_frames (main example_cv () example_roi (example_cap 1 [black_frame])
       (writers_ok\<lparr>mask_isOpened := False\<rparr>)) = 0
   \<and> tracked_open (main example_cv () example_roi (example_cap 1 [black_frame])
       (writers_ok\<lparr>mask_isOpened := False\<rparr>))
   \<and> roi_open (main example_cv () example_roi (example_cap 1 [black_frame])
       (writers_ok\<lparr>mask_isOpened := False\<rparr>))
   \<and> tracked_output_file (main example_cv () example_roi (example_cap 1 [black_frame])
       (writers_ok\<lparr>mask_isOpened := False\<rparr>))
   \<and> roi_output_file (main example_cv () example_roi (example_cap 1 [black_frame])
       (writers_ok\<lparr>mask_isOpened := False\<rparr>))
   \<and> mask_output_file (main example_cv () example_roi (example_cap 1 [black_frame])
       (writers_ok\<lparr>mask_isOpened := False\<rparr>))"
  by (simp add: main_def Let_def example_cap_def example_roi_def writers_ok_def
      create_writers_def initial_def)

text \<open>
  C9, as stated, fails: \<open>roi\<close> is a view of \<open>frame\<close>, so the rectangle drawn on \<open>roi\<close> is
  drawn into \<open>frame\<close>, and \<open>tracked_out\<close> is given the frame with the annotation.  In the
  example run the pixel at row 0, column 0 lies in the ROI, is black in the input frame
  and green in the frame written to the full-frame writer.
\<close>

theorem full_frame_sink_differs_from_input:
  "tracked_out (main example_cv () example_roi (example_cap 1 [black_frame]) writers_ok) ! 0 ! 0 ! 0
     = (0, 255, 0)
   \<and> cap_frames (example_cap 1 [black_frame]) ! 0 ! 0 ! 0 = (0, 0, 0)
   \<and> in_roi example_roi 0 0
   \<and> tracked_out (main example_cv () example_roi (example_cap 1 [black_frame]) writers_ok) ! 0
     \<noteq> cap_frames (example_cap 1 [black_frame]) ! 0"
proof -
  have a: "black_frame[0 := (black_frame ! 0)[0 := (0, 255, 0)]] ! 0 ! 0 = (0, 255, 0)"
    by (simp add: black_frame_def)
  have b: "black_frame ! 0 ! 0 = (0, 0, 0)" by (simp add: black_frame_def)
  have c: "black_frame[0 := (black_frame ! 0)[0 := (0, 255, 0)]] \<noteq> black_frame"
  proof
    assume "black_frame[0 := (black_frame ! 0)[0 := (0, 255, 0)]] = black_frame"
    with a b show False by simp
  qed
  from a b c example_run show ?thesis
    by (simp add: example_cap_def in_roi_def example_roi_def)
qed

text \<open>
  C9, amended: for every processed frame, the frame written to the full-frame writer is the
  input frame with the annotations drawn into its ROI rectangle.  For slider values that
  are not negative and frames of the capture's shape: the k-th frame written to the
  full-frame writer has the shape of the k-th input frame and its pixels everywhere outside
  the ROI rectangle, and its ROI window is the annotated ROI, that is, the ROI of the input
  frame with the box and id of each tracked box of that frame drawn on it; the k-th frame
  written to the ROI writer is that same window; a complete run writes one frame per input
  frame, in order.
\<close>

theorem full_frame_sink_is_annotated:
  assumes "0 \<le> roi_y_start cfg" and "0 \<le> roi_x_start cfg"
    and "\<forall>frame \<in> set (cap_frames cap). has_shape cap frame"
  shows "roi_out (main cv seg0 cfg cap env)
           = map (roi_view cfg) (tracked_out (main cv seg0 cfg cap env))
     \<and> length (tracked_out (main cv seg0 cfg cap env)) \<le> length (cap_frames cap)
     \<and> (message (main cv seg0 cfg cap env) = ProcessingComplete
          \<longrightarrow> length (tracked_out (main cv seg0 cfg cap env)) = length (cap_frames cap))
     \<and> (\<forall>k < length (tracked_out (main cv seg0 cfg cap env)).
          agrees_outside cfg (tracked_out (main cv seg0 cfg cap env) ! k) (cap_frames cap ! k)
          \<and> roi_view cfg (tracked_out (main cv seg0 cfg cap env) ! k)
              = annotate_copy cv
                  (frame_boxes cv cfg EuclideanDistTracker seg0 (cap_frames cap) ! k)
                  (roi_view cfg (cap_frames cap ! k)))"
proof -
  let ?M = "main cv seg0 cfg cap env"
  let ?st1 = "create_writers env (initial seg0 cap)"
  from main_loop [of cv seg0 cfg cap env] show ?thesis
  proof
    assume "tracked_out ?M = [] \<and> roi_out ?M = [] \<and> message ?M \<noteq> ProcessingComplete"
    then show ?thesis by simp
  next
    assume "roi_y_end cfg \<le> height cap \<and> roi_x_end cfg \<le> width cap
      \<and> (\<exists>st2 e. frames_loop cv cfg (frame_count cap) ?st1 (cap_frames cap) = (st2, e)
         \<and> tracked_out ?M = tracked_out st2 \<and> roi_out ?M = roi_out st2
         \<and> (message ?M = ProcessingComplete \<longrightarrow> e = None))"
    then obtain st2 e where v: "roi_y_end cfg \<le> height cap" "roi_x_end cfg \<le> width cap"
      and l: "frames_loop cv cfg (frame_count cap) ?st1 (cap_frames cap) = (st2, e)"
      and t: "tracked_out ?M = tracked_out st2" and r: "roi_out ?M = roi_out st2"
      and m: "message ?M = ProcessingComplete \<longrightarrow> e = None" by blast
    have e0: "tracked_out ?st1 = []" "roi_out ?st1 = []"
      "tracker ?st1 = EuclideanDistTracker" "object_detector ?st1 = seg0"
      by (simp_all add: create_writers_def initial_def)
    have shape: "\<forall>frame \<in> set (cap_frames cap). roi_y_end cfg \<le> int (length frame)
        \<and> (\<forall>r < length frame. roi_x_end cfg \<le> int (length (frame ! r)))"
      using assms(3) has_shape_covers [OF _ v] by blast
    from frames_loop_annotated [OF assms(1,2) l shape] e0 obtain written where
      w: "tracked_out st2 = written" "roi_out st2 = map (roi_view cfg) written"
         "length written \<le> length (cap_frames cap)"
         "e = None \<longrightarrow> length written = length (cap_frames cap)"
         "\<forall>k < length written.
             agrees_outside cfg (written ! k) (cap_frames cap ! k)
             \<and> roi_view cfg (written ! k)
                 = annotate_copy cv
                     (frame_boxes cv cfg EuclideanDistTracker seg0 (cap_frames cap) ! k)
                     (roi_view cfg (cap_frames cap ! k))"
      by auto
    with t r m show ?thesis by simp
  qed
qed

theorem full_frame_sink_is_annotated_witness:
  "0 \<le> roi_y_start inner_roi \<and> 0 \<le> roi_x_start inner_roi
   \<and> has_shape (wide_cap [wide_frame]) wide_frame
   \<and> message (main example_cv () inner_roi (wide_cap [wide_frame]) writers_ok)
       = ProcessingComplete
   \<and> length (tracked_out (main example_cv () inner_roi (wide_cap [wide_frame]) writers_ok)) = 1
   \<and> frame_boxes example_cv inner_roi EuclideanDistTracker () [wide_frame]
       = [[(0, 0, 12, 12, 0)]]
   \<and> roi_out (main example_cv () inner_roi (wide_cap [wide_frame]) writers_ok)
       = [(replicate 12 (replicate 12 (0, 0, 0)))
            [0 := (replicate 12 (0, 0, 0))[0 := (0, 255, 0)]]]
   \<and> roi_view inner_roi
         (tracked_out (main example_cv () inner_roi (wide_cap [wide_frame]) writers_ok) ! 0)
       = (replicate 12 (replicate 12 (0, 0, 0)))
            [0 := (replicate 12 (0, 0, 0))[0 := (0, 255, 0)]]
   \<and> in_roi inner_roi 1 2
   \<and> tracked_out (main example_cv () inner_roi (wide_cap [wide_frame]) writers_ok) ! 0 ! 1 ! 2
       = (0, 255, 0)
   \<and> wide_frame ! 1 ! 2 = (0, 0, 0)
   \<and> \<not> in_roi inner_roi 0 0
   \<and> tracked_out (main example_cv () inner_roi (wide_cap [wide_frame]) writers_ok) ! 0 ! 0 ! 0
       = wide_frame ! 0 ! 0
   \<and> agrees_outside inner_roi
         (tracked_out (main example_cv () inner_roi (wide_cap [wide_frame]) writers_ok) ! 0)
         wide_frame"
proof -
  let ?M = "main example_cv () inner_roi (wide_cap [wide_frame]) writers_ok"
  let ?R = "(replicate 12 (replicate 12 (0, 0, 0)))
              [0 := (replicate 12 (0, 0, 0))[0 := (0::8 word, 255::8 word, 0::8 word)]]"
  have h: "0 \<le> roi_y_start inner_roi" "0 \<le> roi_x_start inner_roi"
    by (simp_all add: inner_roi_def)
  have sh: "has_shape (wide_cap [wide_frame]) wide_frame"
    by (simp add: has_shape_def wide_cap_def wide_frame_def)
  then have shs: "\<forall>frame \<in> set (cap_frames (wide_cap [wide_frame])).
      has_shape (wide_cap [wide_frame]) frame"
    by (simp add: wide_cap_def)
  from inner_run have t: "tracked_out ?M = [wide_frame[1 := (wide_frame ! 1)[2 := (0, 255, 0)]]]"
    and m: "message ?M = ProcessingComplete"
    and b: "frame_boxes example_cv inner_roi EuclideanDistTracker () [wide_frame]
       = [[(0, 0, 12, 12, 0)]]"
    and a: "annotate_copy example_cv [(0, 0, 12, 12, 0)] (roi_view inner_roi wide_frame) = ?R"
    by blast+
  from t have l: "length (tracked_out ?M) = 1" by simp
  note T = full_frame_sink_is_annotated [OF h shs, of example_cv "()" writers_ok]
  from T have ro: "roi_out ?M = map (roi_view inner_roi) (tracked_out ?M)" by blast
  from T l have "agrees_outside inner_roi (tracked_out ?M ! 0)
         (cap_frames (wide_cap [wide_frame]) ! 0)
      \<and> roi_view inner_roi (tracked_out ?M ! 0)
          = annotate_copy example_cv
              (frame_boxes example_cv inner_roi EuclideanDistTracker ()
                 (cap_frames (wide_cap [wide_frame])) ! 0)
              (roi_view inner_roi (cap_frames (wide_cap [wide_frame]) ! 0))"
    by simp
  then have ag: "agrees_outside inner_roi (tracked_out ?M ! 0) wide_frame"
    and rv: "roi_view inner_roi (tracked_out ?M ! 0) = ?R"
    using b a by (simp_all add: wide_cap_def)
  from ro t rv have ro': "roi_out ?M = [?R]" by simp
  have p1: "tracked_out ?M ! 0 ! 1 ! 2 = (0, 255, 0)"
    unfolding t by (simp add: wide_frame_def)
  have p2: "wide_frame ! 1 ! 2 = (0, 0, 0)" by (simp add: wide_frame_def)
  have p3: "tracked_out ?M ! 0 ! 0 ! 0 = wide_frame ! 0 ! 0"
    unfolding t by (simp add: wide_frame_def)
  have i1: "in_roi inner_roi 1 2" and i2: "\<not> in_roi inner_roi 0 0"
    by (simp_all add: in_roi_def inner_roi_def)
  from h sh m l b ro' rv i1 p1 p2 i2 p3 ag show ?thesis by blast
qed

text \<open>
  C10: the progress computation divides by the reported frame count with no guard.  It
  raises \<open>ZeroDivisionError\<close> exactly when the count is 0; once a frame has been
  processed it yields a fraction in \<open>[0, 1]\<close> exactly when the count is at least 1; and
  for a capture that reports 0 frames and yields at least one, a run whose setup succeeds
  ends in the exception handler with \<open>ZeroDivisionError\<close> after the first frame.
\<close>

theorem progress_division:
  "progress n 0 = Inl ZeroDivisionError
   \<and> (progress n fc = Inl ZeroDivisionError \<longleftrightarrow> fc = 0)
   \<and> (0 < n \<longrightarrow> ((\<exists>p. progress n fc = Inr p \<and> 0 \<le> p \<and> p \<le> 1) \<longleftrightarrow> 1 \<le> fc))
   \<and> (cap_isOpened cap
        \<and> roi_y_start cfg < roi_y_end cfg \<and> roi_x_start cfg < roi_x_end cfg
        \<and> roi_y_end cfg \<le> height cap \<and> roi_x_end cfg \<le> width cap
        \<and> tracked_isOpened env \<and> roi_isOpened env \<and> mask_isOpened env
        \<and> frame_count cap = 0 \<and> cap_frames cap = frame # rest
      \<longrightarrow> message (main cv seg0 cfg cap env) = AnErrorOccurred ZeroDivisionError
          \<and> processed_frames (main cv seg0 cfg cap env) = 1)"
proof -
  have a: "progress n 0 = Inl ZeroDivisionError" by (simp add: progress_def)
  have b: "progress n fc = Inl ZeroDivisionError \<longleftrightarrow> fc = 0" by (simp add: progress_def)
  have c: "(\<exists>p. progress n fc = Inr p \<and> 0 \<le> p \<and> p \<le> 1) \<longleftrightarrow> 1 \<le> fc" if n: "0 < n"
  proof (cases "fc = 0")
    case True
    then show ?thesis by (simp add: progress_def)
  next
    case False
    have "0 \<le> min (real n / real_of_int fc) 1 \<longleftrightarrow> 1 \<le> fc"
    proof (cases "0 < fc")
      case True
      then show ?thesis by simp
    next
      case neg: False
      with False have "fc < 0" by simp
      with n have "real n / real_of_int fc < 0" by (simp add: divide_neg_pos field_simps)
      with \<open>fc < 0\<close> show ?thesis by simp
    qed
    with False show ?thesis by (simp add: progress_def)
  qed
  have d: "message (main cv seg0 cfg cap env) = AnErrorOccurred ZeroDivisionError
          \<and> processed_frames (main cv seg0 cfg cap env) = 1"
    if "cap_isOpened cap"
       "roi_y_start cfg < roi_y_end cfg" "roi_x_start cfg < roi_x_end cfg"
       "roi_y_end cfg \<le> height cap" "roi_x_end cfg \<le> width cap"
       "tracked_isOpened env" "roi_isOpened env" "mask_isOpened env"
       "frame_count cap = 0" "cap_frames cap = frame # rest"
    using that
    by (simp add: main_def Let_def update_progress_def progress_def process_frame_fields
        unlink_outputs_def release_writers_def
        create_writers_def initial_def)
  from a b c d show ?thesis by blast
qed

theorem progress_division_witness:
  "(0::nat) < 1
   \<and> progress 1 1 = Inr 1
   \<and> message (main example_cv () example_roi (example_cap 0 [black_frame]) writers_ok)
       = AnErrorOccurred ZeroDivisionError
   \<and> processed_frames (main example_cv () example_roi (example_cap 0 [black_frame]) writers_ok) = 1"
  using progress_division [of 1 1 "example_cap 0 [black_frame]" example_roi writers_ok
      black_frame "[]" example_cv "()"]
  by (simp add: example_cap_def example_roi_def writers_ok_def progress_def)

end
